theory Spec2Isabelle
  imports Complex_Main "HOL-Library.Word"
begin

section \<open>Strings, dates and enumerations\<close>

text \<open>
  A JavaScript string is a sequence of UTF-16 code units; \<open>length\<close>, \<open>trim\<close>, the
  relational operators and a regular expression without the \<open>u\<close> flag all work on
  code units. String literals of the source are written with \<open>lit\<close>.
\<close>

type_synonym code_unit = "16 word"
type_synonym jsstring = "code_unit list"

definition lit :: "string \<Rightarrow> jsstring" where
  "lit s = map of_char s"

text \<open>The code units that \<open>trim\<close> strips and \<open>\s\<close> matches: WhiteSpace and LineTerminator.\<close>

definition isWhiteSpace :: "code_unit \<Rightarrow> bool" where
  "isWhiteSpace c \<longleftrightarrow>
     c \<in> set [0x0009, 0x000A, 0x000B, 0x000C, 0x000D, 0x0020, 0x00A0, 0x1680,
               0x2000, 0x2001, 0x2002, 0x2003, 0x2004, 0x2005, 0x2006, 0x2007,
               0x2008, 0x2009, 0x200A, 0x2028, 0x2029, 0x202F, 0x205F, 0x3000, 0xFEFF]"

definition trim :: "jsstring \<Rightarrow> jsstring" where
  "trim s = rev (dropWhile isWhiteSpace (rev (dropWhile isWhiteSpace s)))"

text \<open>\<open>array.join(sep)\<close> on an array of strings.\<close>

fun join :: "jsstring \<Rightarrow> jsstring list \<Rightarrow> jsstring" where
  "join sep [] = []"
| "join sep [x] = x"
| "join sep (x # y # ys) = x @ sep @ join sep (y # ys)"

text \<open>A non-negative integer interpolated into a template string.\<close>

function show_nat :: "nat \<Rightarrow> string" where
  "show_nat n =
     (if n < 10 then [char_of (48 + n)]
      else show_nat (n div 10) @ [char_of (48 + n mod 10)])"
  by pat_completeness auto
termination
  by (relation "measure id") auto

declare show_nat.simps [simp del]

text \<open>
  A \<open>Date\<close> object holds a time value in milliseconds, or NaN (an invalid date).
  Relational operators convert both sides to the time value, and every comparison
  with NaN is false.
\<close>

datatype date = Date int | InvalidDate

fun date_lt :: "date \<Rightarrow> date \<Rightarrow> bool" where
  "date_lt (Date a) (Date b) = (a < b)"
| "date_lt _ _ = False"

text \<open>A property that may be \<open>undefined\<close>, \<open>null\<close> or hold a value.\<close>

datatype 'a nullable = Undefined | Null | Present 'a

datatype Priority = LOW | MEDIUM | HIGH | URGENT

datatype TaskStatus = TODO | IN_PROGRESS | DONE | CANCELLED

datatype UserRole = ADMIN | MANAGER | USER | GUEST

text \<open>The three enums are string enums: each member is its string at run time.\<close>

fun priority_value :: "Priority \<Rightarrow> jsstring" where
  "priority_value LOW = lit ''low''"
| "priority_value MEDIUM = lit ''medium''"
| "priority_value HIGH = lit ''high''"
| "priority_value URGENT = lit ''urgent''"

fun status_value :: "TaskStatus \<Rightarrow> jsstring" where
  "status_value TODO = lit ''todo''"
| "status_value IN_PROGRESS = lit ''in-progress''"
| "status_value DONE = lit ''done''"
| "status_value CANCELLED = lit ''cancelled''"

fun role_value :: "UserRole \<Rightarrow> jsstring" where
  "role_value ADMIN = lit ''admin''"
| "role_value MANAGER = lit ''manager''"
| "role_value USER = lit ''user''"
| "role_value GUEST = lit ''guest''"

section \<open>utils/validators.ts\<close>

text \<open>
  The type guards for the enums receive a run-time value that the static type does not
  bound (the entry point passes \<open>'invalid' as any\<close>); the value is modelled as the
  string it is.
\<close>

definition isPriority :: "jsstring \<Rightarrow> bool" where
  "isPriority v \<longleftrightarrow> v \<in> set (map priority_value [LOW, MEDIUM, HIGH, URGENT])"

definition isTaskStatus :: "jsstring \<Rightarrow> bool" where
  "isTaskStatus v \<longleftrightarrow> v \<in> set (map status_value [TODO, IN_PROGRESS, DONE, CANCELLED])"

definition isUserRole :: "jsstring \<Rightarrow> bool" where
  "isUserRole v \<longleftrightarrow> v \<in> set (map role_value [ADMIN, MANAGER, USER, GUEST])"

fun isDate :: "date \<Rightarrow> bool" where
  "isDate (Date t) = True"
| "isDate InvalidDate = False"

text \<open>
  \<open>emailRegex = /^[^\s@]+@[^\s@]+\.[^\s@]+$/\<close>: a sequence of character classes, each
  matched once or one-or-more times, anchored at both ends. \<open>regex_test\<close> is the
  backtracking matcher for patterns of this form: a \<open>+\<close> item first tries to take more.
\<close>

datatype char_class = NotSpaceOrAt | Literal code_unit

datatype quantifier = Once | OneOrMore

fun in_class :: "char_class \<Rightarrow> code_unit \<Rightarrow> bool" where
  "in_class NotSpaceOrAt c = (\<not> isWhiteSpace c \<and> c \<noteq> 0x40)"
| "in_class (Literal l) c = (c = l)"

fun regex_test :: "(char_class \<times> quantifier) list \<Rightarrow> jsstring \<Rightarrow> bool" where
  "regex_test [] s = (s = [])"
| "regex_test ((cl, q) # r) [] = False"
| "regex_test ((cl, Once) # r) (c # cs) = (in_class cl c \<and> regex_test r cs)"
| "regex_test ((cl, OneOrMore) # r) (c # cs) =
     (in_class cl c \<and> (regex_test ((cl, OneOrMore) # r) cs \<or> regex_test r cs))"

definition emailRegex :: "(char_class \<times> quantifier) list" where
  "emailRegex = [(NotSpaceOrAt, OneOrMore), (Literal 0x40, Once), (NotSpaceOrAt, OneOrMore),
                 (Literal 0x2E, Once), (NotSpaceOrAt, OneOrMore)]"

definition isValidEmail :: "jsstring \<Rightarrow> bool" where
  "isValidEmail email = regex_test emailRegex email"

fun validateRequired :: "jsstring nullable \<Rightarrow> jsstring \<Rightarrow> jsstring option" where
  "validateRequired Undefined fieldName = Some (fieldName @ lit '' is required'')"
| "validateRequired Null fieldName = Some (fieldName @ lit '' is required'')"
| "validateRequired (Present v) fieldName =
     (if length (trim v) = 0 then Some (fieldName @ lit '' cannot be empty'') else None)"

text \<open>Every caller passes both bounds, so the default \<open>maxLength = Infinity\<close> is not modelled.\<close>

definition validateStringLength :: "jsstring \<Rightarrow> jsstring \<Rightarrow> nat \<Rightarrow> nat \<Rightarrow> jsstring option" where
  "validateStringLength v fieldName minLength maxLength =
     (if length v < minLength then
        Some (fieldName @ lit '' must be at least '' @ lit (show_nat minLength)
              @ lit '' characters long'')
      else if length v > maxLength then
        Some (fieldName @ lit '' must be no more than '' @ lit (show_nat maxLength)
              @ lit '' characters long'')
      else None)"

record validation =
  isValid :: bool
  errors :: "jsstring list"

text \<open>
  The argument of \<open>validateTaskData\<close> is a \<open>Partial<ITask>\<close> as the function inspects it
  at run time: the title, the description and the due date may be \<open>undefined\<close> or
  \<open>null\<close>, priority and status are arbitrary strings, the due date may be an invalid
  date, and the tags may be something other than an array of strings.
\<close>

datatype tag_element = TagString jsstring | TagOther

datatype tags_value = NotAnArray | TagArray "tag_element list"

fun isString_tag :: "tag_element \<Rightarrow> bool" where
  "isString_tag (TagString s) = True"
| "isString_tag TagOther = False"

record task_data =
  td_id :: "jsstring option"
  td_title :: "jsstring nullable"
  td_description :: "jsstring nullable"
  td_completed :: "bool option"
  td_priority :: "jsstring option"
  td_status :: "jsstring option"
  td_assignedTo :: "jsstring option"
  td_createdAt :: "date option"
  td_updatedAt :: "date option"
  td_dueDate :: "date nullable"
  td_tags :: "tags_value option"

definition title_errors :: "jsstring nullable \<Rightarrow> jsstring list" where
  "title_errors t =
     (case t of
        Undefined \<Rightarrow> []
      | _ \<Rightarrow>
         (case validateRequired t (lit ''Title'') of
            Some titleError \<Rightarrow> [titleError]
          | None \<Rightarrow>
             (case t of
                Present v \<Rightarrow>
                  (case validateStringLength v (lit ''Title'') 1 200 of
                     Some lengthError \<Rightarrow> [lengthError]
                   | None \<Rightarrow> [])
              | _ \<Rightarrow> [])))"

definition description_errors :: "jsstring nullable \<Rightarrow> jsstring list" where
  "description_errors d =
     (case d of
        Present v \<Rightarrow>
          (case validateStringLength v (lit ''Description'') 0 1000 of
             Some lengthError \<Rightarrow> [lengthError]
           | None \<Rightarrow> [])
      | _ \<Rightarrow> [])"

definition priority_errors :: "jsstring option \<Rightarrow> jsstring list" where
  "priority_errors p =
     (case p of
        Some v \<Rightarrow> if \<not> isPriority v then [lit ''Invalid priority value''] else []
      | None \<Rightarrow> [])"

definition status_errors :: "jsstring option \<Rightarrow> jsstring list" where
  "status_errors s =
     (case s of
        Some v \<Rightarrow> if \<not> isTaskStatus v then [lit ''Invalid status value''] else []
      | None \<Rightarrow> [])"

definition dueDate_errors :: "date nullable \<Rightarrow> jsstring list" where
  "dueDate_errors d =
     (case d of
        Present v \<Rightarrow> if \<not> isDate v then [lit ''Due date must be a valid date''] else []
      | _ \<Rightarrow> [])"

definition tags_errors :: "tags_value option \<Rightarrow> jsstring list" where
  "tags_errors t =
     (case t of
        None \<Rightarrow> []
      | Some NotAnArray \<Rightarrow> [lit ''Tags must be an array'']
      | Some (TagArray elems) \<Rightarrow>
          if \<not> list_all isString_tag elems then [lit ''All tags must be strings''] else [])"

text \<open>
  \<open>validateTaskData\<close> pushes onto one \<open>errors\<close> array, block after block; each
  definition above is one block of the function body, in the order of the source.
\<close>

definition validateTaskData :: "task_data \<Rightarrow> validation" where
  "validateTaskData taskData =
     (let errs = title_errors (td_title taskData)
               @ description_errors (td_description taskData)
               @ priority_errors (td_priority taskData)
               @ status_errors (td_status taskData)
               @ dueDate_errors (td_dueDate taskData)
               @ tags_errors (td_tags taskData)
      in \<lparr>isValid = (length errs = 0), errors = errs\<rparr>)"

text \<open>
  The argument of \<open>validateUserData\<close> is a \<open>Partial<IUser>\<close>, inspected at run time in
  the same way; only \<open>name\<close>, \<open>email\<close> and \<open>role\<close> are read.
\<close>

record user_data =
  ud_id :: "jsstring option"
  ud_name :: "jsstring nullable"
  ud_email :: "jsstring nullable"
  ud_role :: "jsstring option"
  ud_isActive :: "bool option"
  ud_createdAt :: "date option"
  ud_lastLogin :: "date option"

definition name_errors :: "jsstring nullable \<Rightarrow> jsstring list" where
  "name_errors n =
     (case n of
        Undefined \<Rightarrow> []
      | _ \<Rightarrow>
         (case validateRequired n (lit ''Name'') of
            Some nameError \<Rightarrow> [nameError]
          | None \<Rightarrow>
             (case n of
                Present v \<Rightarrow>
                  (case validateStringLength v (lit ''Name'') 1 100 of
                     Some lengthError \<Rightarrow> [lengthError]
                   | None \<Rightarrow> [])
              | _ \<Rightarrow> [])))"

definition email_errors :: "jsstring nullable \<Rightarrow> jsstring list" where
  "email_errors e =
     (case e of
        Undefined \<Rightarrow> []
      | _ \<Rightarrow>
         (case validateRequired e (lit ''Email'') of
            Some emailError \<Rightarrow> [emailError]
          | None \<Rightarrow>
             (case e of
                Present v \<Rightarrow> if \<not> isValidEmail v then [lit ''Invalid email format''] else []
              | _ \<Rightarrow> [])))"

definition role_errors :: "jsstring option \<Rightarrow> jsstring list" where
  "role_errors r =
     (case r of
        Some v \<Rightarrow> if \<not> isUserRole v then [lit ''Invalid user role''] else []
      | None \<Rightarrow> [])"

definition validateUserData :: "user_data \<Rightarrow> validation" where
  "validateUserData userData =
     (let errs = name_errors (ud_name userData)
               @ email_errors (ud_email userData)
               @ role_errors (ud_role userData)
      in \<lparr>isValid = (length errs = 0), errors = errs\<rparr>)"

section \<open>models/Task.ts\<close>

text \<open>
  The class \<open>Task\<close>; \<open>completed\<close> is the private field \<open>_completed\<close> that the getter
  of the same name returns. The properties have their static types: priority and status
  are members of their enums.
\<close>

record task =
  task_id :: jsstring
  title :: jsstring
  description :: "jsstring option"
  priority :: Priority
  status :: TaskStatus
  assignedTo :: "jsstring option"
  createdAt :: date
  updatedAt :: date
  dueDate :: "date option"
  tags :: "jsstring list"
  completed :: bool

text \<open>
  \<open>Task.validate\<close>. The empty string is falsy, so \<open>!this.title\<close> is \<open>title = []\<close> and
  \<open>this.description && ...\<close> skips the empty description; a \<open>Date\<close> is always truthy.
\<close>

definition Task_validate :: "task \<Rightarrow> validation" where
  "Task_validate t =
     (let errs =
        (if title t = [] \<or> length (trim (title t)) = 0
         then [lit ''Title is required''] else [])
      @ (if title t \<noteq> [] \<and> length (title t) > 200
         then [lit ''Title must be less than 200 characters''] else [])
      @ (case description t of
           Some d \<Rightarrow> if d \<noteq> [] \<and> length d > 1000
                     then [lit ''Description must be less than 1000 characters''] else []
         | None \<Rightarrow> [])
      @ (case dueDate t of
           Some d \<Rightarrow> if date_lt d (createdAt t)
                     then [lit ''Due date cannot be before creation date''] else []
         | None \<Rightarrow> [])
      in \<lparr>isValid = (length errs = 0), errors = errs\<rparr>)"

text \<open>
  The constructor. \<open>new Date()\<close> reads the clock; every operation below takes the time
  it reads as the argument \<open>now\<close>. \<open>input.priority || Priority.MEDIUM\<close> and
  \<open>input.tags || []\<close> supply the defaults.
\<close>

record create_task_input =
  ci_title :: jsstring
  ci_description :: "jsstring option"
  ci_priority :: "Priority option"
  ci_assignedTo :: "jsstring option"
  ci_dueDate :: "date option"
  ci_tags :: "jsstring list option"

definition new_Task :: "create_task_input \<Rightarrow> jsstring \<Rightarrow> int \<Rightarrow> task" where
  "new_Task input ident now =
     \<lparr>task_id = ident,
      title = ci_title input,
      description = ci_description input,
      priority = (case ci_priority input of Some p \<Rightarrow> p | None \<Rightarrow> MEDIUM),
      status = TODO,
      assignedTo = ci_assignedTo input,
      createdAt = Date now,
      updatedAt = Date now,
      dueDate = ci_dueDate input,
      tags = (case ci_tags input of Some ts \<Rightarrow> ts | None \<Rightarrow> []),
      completed = False\<rparr>"

definition Task_markComplete :: "task \<Rightarrow> int \<Rightarrow> task" where
  "Task_markComplete t now = t\<lparr>completed := True, status := DONE, updatedAt := Date now\<rparr>"

definition Task_markIncomplete :: "task \<Rightarrow> int \<Rightarrow> task" where
  "Task_markIncomplete t now = t\<lparr>completed := False, status := TODO, updatedAt := Date now\<rparr>"

section \<open>services/TaskService.ts\<close>

text \<open>
  The service owns the array \<open>tasks\<close> and the counter \<open>nextId\<close>; an operation takes the
  service and returns it with the response. Each task object is in the array once, so
  mutating the object found is replacing the array element. The methods are \<open>async\<close>
  without awaiting anything: they run to completion. No statement inside the
  \<open>try\<close> blocks throws on values of the declared types, so the \<open>catch\<close> branches are
  not taken.
\<close>

record task_service =
  tasks :: "task list"
  nextId :: nat

record 'a api_response =
  success :: bool
  data :: "'a option"
  error :: "jsstring option"
  timestamp :: date

definition TaskService_init :: task_service where
  "TaskService_init = \<lparr>tasks = [], nextId = 1\<rparr>"

fun findIndex :: "('a \<Rightarrow> bool) \<Rightarrow> 'a list \<Rightarrow> nat option" where
  "findIndex P [] = None"
| "findIndex P (x # xs) =
     (if P x then Some 0 else (case findIndex P xs of Some i \<Rightarrow> Some (Suc i) | None \<Rightarrow> None))"

definition validation_failed :: "validation \<Rightarrow> int \<Rightarrow> 'a api_response" where
  "validation_failed v now =
     \<lparr>success = False, data = None,
      error = Some (lit ''Validation failed: '' @ join (lit '', '') (errors v)),
      timestamp = Date now\<rparr>"

definition task_not_found :: "jsstring \<Rightarrow> int \<Rightarrow> 'a api_response" where
  "task_not_found ident now =
     \<lparr>success = False, data = None,
      error = Some (lit ''Task with ID '' @ ident @ lit '' not found''),
      timestamp = Date now\<rparr>"

definition succeeded :: "'a \<Rightarrow> int \<Rightarrow> 'a api_response" where
  "succeeded d now = \<lparr>success = True, data = Some d, error = None, timestamp = Date now\<rparr>"

text \<open>\<open>create\<close>: the identifier is generated, and the counter advanced, before validation.\<close>

definition TaskService_create ::
  "task_service \<Rightarrow> int \<Rightarrow> create_task_input \<Rightarrow> task_service \<times> task api_response" where
  "TaskService_create svc now taskData =
     (let ident = lit ''task_'' @ lit (show_nat (nextId svc));
          svc1 = svc\<lparr>nextId := nextId svc + 1\<rparr>;
          task = new_Task taskData ident now;
          validation = Task_validate task
      in if \<not> isValid validation then (svc1, validation_failed validation now)
         else (svc1\<lparr>tasks := tasks svc1 @ [task]\<rparr>, succeeded task now))"

text \<open>
  The \<open>updates\<close> of \<open>update\<close> are a \<open>Partial<ITask>\<close> of the declared types; the method
  reads seven of its properties. Each \<open>if (updates.x !== undefined) task.x = updates.x\<close>
  is the assignment of \<open>updates.x\<close> when it is given and of the old value otherwise; the
  assignments are in the order of the source, the update time last.
\<close>

record task_updates =
  u_id :: "jsstring option"
  u_title :: "jsstring option"
  u_description :: "jsstring option"
  u_completed :: "bool option"
  u_priority :: "Priority option"
  u_status :: "TaskStatus option"
  u_assignedTo :: "jsstring option"
  u_createdAt :: "date option"
  u_updatedAt :: "date option"
  u_dueDate :: "date option"
  u_tags :: "jsstring list option"

definition apply_updates :: "task_updates \<Rightarrow> int \<Rightarrow> task \<Rightarrow> task" where
  "apply_updates updates now task =
     task\<lparr>title := (case u_title updates of Some v \<Rightarrow> v | None \<Rightarrow> title task),
          description := (case u_description updates of Some v \<Rightarrow> Some v
                          | None \<Rightarrow> description task),
          priority := (case u_priority updates of Some v \<Rightarrow> v | None \<Rightarrow> priority task),
          assignedTo := (case u_assignedTo updates of Some v \<Rightarrow> Some v
                         | None \<Rightarrow> assignedTo task),
          dueDate := (case u_dueDate updates of Some v \<Rightarrow> Some v | None \<Rightarrow> dueDate task),
          tags := (case u_tags updates of Some v \<Rightarrow> v | None \<Rightarrow> tags task),
          status := (case u_status updates of Some v \<Rightarrow> v | None \<Rightarrow> status task),
          updatedAt := Date now\<rparr>"

definition TaskService_update ::
  "task_service \<Rightarrow> int \<Rightarrow> jsstring \<Rightarrow> task_updates \<Rightarrow> task_service \<times> task api_response" where
  "TaskService_update svc now ident updates =
     (case findIndex (\<lambda>t. task_id t = ident) (tasks svc) of
        None \<Rightarrow> (svc, task_not_found ident now)
      | Some taskIndex \<Rightarrow>
          (let task = apply_updates updates now (tasks svc ! taskIndex);
               svc1 = svc\<lparr>tasks := (tasks svc)[taskIndex := task]\<rparr>;
               validation = Task_validate task
           in if \<not> isValid validation then (svc1, validation_failed validation now)
              else (svc1, succeeded task now)))"

definition TaskService_delete ::
  "task_service \<Rightarrow> int \<Rightarrow> jsstring \<Rightarrow> task_service \<times> bool api_response" where
  "TaskService_delete svc now ident =
     (case findIndex (\<lambda>t. task_id t = ident) (tasks svc) of
        None \<Rightarrow> (svc, task_not_found ident now)
      | Some taskIndex \<Rightarrow>
          (svc\<lparr>tasks := take taskIndex (tasks svc) @ drop (Suc taskIndex) (tasks svc)\<rparr>,
           succeeded True now))"

definition TaskService_markComplete ::
  "task_service \<Rightarrow> int \<Rightarrow> jsstring \<Rightarrow> task_service \<times> task api_response" where
  "TaskService_markComplete svc now ident =
     (case findIndex (\<lambda>t. task_id t = ident) (tasks svc) of
        None \<Rightarrow> (svc, task_not_found ident now)
      | Some taskIndex \<Rightarrow>
          (let task = Task_markComplete (tasks svc ! taskIndex) now
           in (svc\<lparr>tasks := (tasks svc)[taskIndex := task]\<rparr>, succeeded task now)))"

definition TaskService_clear :: "task_service \<Rightarrow> task_service" where
  "TaskService_clear svc = \<lparr>tasks = [], nextId = 1\<rparr>"

subsection \<open>Filtering\<close>

datatype 'a one_or_many = Single 'a | Multiple "'a list"

fun as_array :: "'a one_or_many \<Rightarrow> 'a list" where
  "as_array (Single v) = [v]"
| "as_array (Multiple vs) = vs"

record date_range =
  range_start :: date
  range_end :: date

record task_filters =
  f_status :: "TaskStatus one_or_many option"
  f_priority :: "Priority one_or_many option"
  f_assignedTo :: "jsstring option"
  f_completed :: "bool option"
  f_dateRange :: "date_range option"
  f_tags :: "jsstring list option"

text \<open>
  The predicate given to \<open>tasks.filter\<close>, one \<open>if\<close> after the other. An enum member and
  an array are truthy, the empty string is falsy: \<open>filters.assignedTo && ...\<close> skips the
  empty assignee, and \<open>filters.tags.length > 0\<close> skips the empty tag list.
\<close>

definition filter_predicate :: "task_filters \<Rightarrow> task \<Rightarrow> bool" where
  "filter_predicate filters task =
     (if (case f_status filters of
            Some s \<Rightarrow> status task \<notin> set (as_array s) | None \<Rightarrow> False) then False
      else if (case f_priority filters of
            Some p \<Rightarrow> priority task \<notin> set (as_array p) | None \<Rightarrow> False) then False
      else if (case f_assignedTo filters of
            Some a \<Rightarrow> a \<noteq> [] \<and> assignedTo task \<noteq> Some a | None \<Rightarrow> False) then False
      else if (case f_completed filters of
            Some c \<Rightarrow> completed task \<noteq> c | None \<Rightarrow> False) then False
      else if (case f_dateRange filters of
            Some r \<Rightarrow> date_lt (createdAt task) (range_start r)
                      \<or> date_lt (range_end r) (createdAt task)
          | None \<Rightarrow> False) then False
      else if (case f_tags filters of
            Some ts \<Rightarrow> length ts > 0
                       \<and> \<not> list_ex (\<lambda>tag. tag \<in> set (tags task)) ts
          | None \<Rightarrow> False) then False
      else True)"

definition applyFilters :: "task list \<Rightarrow> task_filters \<Rightarrow> task list" where
  "applyFilters ts filters = filter (filter_predicate filters) ts"

subsection \<open>Sorting\<close>

datatype sort_order = Asc | Desc

text \<open>\<open>keyof ITask\<close>, and the value that \<open>task[sortBy]\<close> reads.\<close>

datatype task_key =
  Key_id | Key_title | Key_description | Key_completed | Key_priority | Key_status
  | Key_assignedTo | Key_createdAt | Key_updatedAt | Key_dueDate | Key_tags

datatype js_value =
  VUndefined | VString jsstring | VBoolean bool | VDate date | VArray "jsstring list"

fun of_optional_string :: "jsstring option \<Rightarrow> js_value" where
  "of_optional_string None = VUndefined"
| "of_optional_string (Some s) = VString s"

fun get_property :: "task \<Rightarrow> task_key \<Rightarrow> js_value" where
  "get_property t Key_id = VString (task_id t)"
| "get_property t Key_title = VString (title t)"
| "get_property t Key_description = of_optional_string (description t)"
| "get_property t Key_completed = VBoolean (completed t)"
| "get_property t Key_priority = VString (priority_value (priority t))"
| "get_property t Key_status = VString (status_value (status t))"
| "get_property t Key_assignedTo = of_optional_string (assignedTo t)"
| "get_property t Key_createdAt = VDate (createdAt t)"
| "get_property t Key_updatedAt = VDate (updatedAt t)"
| "get_property t Key_dueDate = (case dueDate t of None \<Rightarrow> VUndefined | Some d \<Rightarrow> VDate d)"
| "get_property t Key_tags = VArray (tags t)"

text \<open>
  \<open>a < b\<close>: strings compare code unit by code unit, booleans as 0 and 1, dates by time
  value, and an array by its string \<open>join(',')\<close>. The two operands of the comparator are
  read under the same key, so they are of one kind; the last equation is for the
  combinations that do not arise.
\<close>

fun string_lt :: "jsstring \<Rightarrow> jsstring \<Rightarrow> bool" where
  "string_lt [] [] = False"
| "string_lt [] (y # ys) = True"
| "string_lt (x # xs) [] = False"
| "string_lt (x # xs) (y # ys) = (x < y \<or> (x = y \<and> string_lt xs ys))"

fun js_lt :: "js_value \<Rightarrow> js_value \<Rightarrow> bool" where
  "js_lt (VString a) (VString b) = string_lt a b"
| "js_lt (VBoolean a) (VBoolean b) = (\<not> a \<and> b)"
| "js_lt (VDate a) (VDate b) = date_lt a b"
| "js_lt (VArray a) (VArray b) = string_lt (join (lit '','') a) (join (lit '','') b)"
| "js_lt _ _ = False"

definition compareTasks :: "task_key \<Rightarrow> sort_order \<Rightarrow> task \<Rightarrow> task \<Rightarrow> int" where
  "compareTasks sortBy sortOrder a b =
     (let aValue = get_property a sortBy; bValue = get_property b sortBy
      in if aValue = VUndefined \<and> bValue = VUndefined then 0
         else if aValue = VUndefined then (if sortOrder = Asc then 1 else - 1)
         else if bValue = VUndefined then (if sortOrder = Asc then - 1 else 1)
         else
           (let comparison = (if js_lt aValue bValue then - 1
                              else if js_lt bValue aValue then 1 else 0)
            in if sortOrder = Desc then - comparison else comparison))"

text \<open>
  \<open>Array.prototype.sort\<close> belongs to the language (ECMAScript), not to this program, so
  the operations that sort take it as the argument \<open>esort\<close>. The language fixes its result
  for a comparator that is consistent on the elements of the array (\<open>consistent_on\<close>
  lists the conditions of the language definition): the result is then ordered by the
  comparator, an element that compares strictly before another coming first, and
  stable, elements that compare equal keeping their order. For any other comparator
  the order is left to the implementation; the result is still an arrangement of the
  same elements. \<open>engine_sort\<close> says that much of a sort function and no more. The
  comparator of the source is consistent unless an invalid date is among the keys, whose
  comparisons are all false.
\<close>

type_synonym 'a sort_function = "('a \<Rightarrow> 'a \<Rightarrow> int) \<Rightarrow> 'a list \<Rightarrow> 'a list"

definition consistent_on :: "('a \<Rightarrow> 'a \<Rightarrow> int) \<Rightarrow> 'a set \<Rightarrow> bool" where
  "consistent_on cmp S \<longleftrightarrow>
     (\<forall>a\<in>S. cmp a a = 0) \<and>
     (\<forall>a\<in>S. \<forall>b\<in>S. cmp a b = 0 \<longrightarrow> cmp b a = 0) \<and>
     (\<forall>a\<in>S. \<forall>b\<in>S. \<forall>c\<in>S. cmp a b = 0 \<and> cmp b c = 0 \<longrightarrow> cmp a c = 0) \<and>
     (\<forall>a\<in>S. \<forall>b\<in>S. \<forall>c\<in>S. cmp a b < 0 \<and> cmp b c < 0 \<longrightarrow> cmp a c < 0) \<and>
     (\<forall>a\<in>S. \<forall>b\<in>S. \<forall>c\<in>S. 0 < cmp a b \<and> 0 < cmp b c \<longrightarrow> 0 < cmp a c) \<and>
     (\<forall>a\<in>S. \<forall>b\<in>S. cmp a b < 0 \<longleftrightarrow> 0 < cmp b a)"

definition engine_sort :: "'a sort_function \<Rightarrow> bool" where
  "engine_sort esort \<longleftrightarrow>
     (\<forall>cmp xs.
        (\<forall>z. count_list (esort cmp xs) z = count_list xs z) \<and>
        (consistent_on cmp (set xs) \<longrightarrow>
           sorted_wrt (\<lambda>a b. \<not> cmp b a < 0) (esort cmp xs) \<and>
           (\<forall>a\<in>set xs. filter (\<lambda>b. cmp a b = 0) (esort cmp xs)
                          = filter (\<lambda>b. cmp a b = 0) xs)))"

text \<open>
  One sort function that meets these conditions, insertion from the right. It stands
  for no particular engine: it shows that the conditions can be met, and it is the sort
  function of the concrete evaluations below.
\<close>

fun sort_insert :: "('a \<Rightarrow> 'a \<Rightarrow> int) \<Rightarrow> 'a \<Rightarrow> 'a list \<Rightarrow> 'a list" where
  "sort_insert cmp x [] = [x]"
| "sort_insert cmp x (y # ys) =
     (if cmp x y \<le> 0 then x # y # ys else y # sort_insert cmp x ys)"

fun insertion_sort :: "'a sort_function" where
  "insertion_sort cmp [] = []"
| "insertion_sort cmp (x # xs) = sort_insert cmp x (insertion_sort cmp xs)"

text \<open>\<open>applySorting\<close>: \<open>tasks.sort\<close> with the comparator of the source.\<close>

definition applySorting ::
  "task sort_function \<Rightarrow> task list \<Rightarrow> task_key \<Rightarrow> sort_order \<Rightarrow> task list" where
  "applySorting esort ts sortBy sortOrder = esort (compareTasks sortBy sortOrder) ts"

subsection \<open>Listing with pagination\<close>

text \<open>
  \<open>page\<close> and \<open>limit\<close> are numbers; the model takes them as integers. \<open>slice\<close> counts a
  negative index from the end and clamps both indices to the array. \<open>Math.ceil(total / limit)\<close>
  is the ceiling of the quotient, and the quotient is infinite or NaN when \<open>limit\<close> is 0.
\<close>

record pagination_options =
  page :: int
  limit :: int
  sortBy :: "task_key option"
  sortOrder :: "sort_order option"

datatype js_number = Finite int | PosInfinity | NegInfinity | NaN

definition array_slice :: "'a list \<Rightarrow> int \<Rightarrow> int \<Rightarrow> 'a list" where
  "array_slice xs start finish =
     (let len = int (length xs);
          k = (if start < 0 then max (len + start) 0 else min start len);
          final = (if finish < 0 then max (len + finish) 0 else min finish len)
      in take (nat (final - k)) (drop (nat k) xs))"

definition ceil_quotient :: "int \<Rightarrow> int \<Rightarrow> js_number" where
  "ceil_quotient n d =
     (if d = 0 then (if n = 0 then NaN else if n > 0 then PosInfinity else NegInfinity)
      else Finite (- ((- n) div d)))"

record task_page =
  page_tasks :: "task list"
  page_total :: nat
  page_number :: "int option"
  page_totalPages :: "js_number option"

text \<open>
  \<open>getAll\<close>: the copy of the array is filtered when a filter is given, sorted when the
  pagination options name a sort key (\<open>sortOrder || 'asc'\<close>), counted, and then sliced
  when pagination options are given.
\<close>

definition TaskService_getAll ::
  "task sort_function \<Rightarrow> task_service \<Rightarrow> int \<Rightarrow> task_filters option
     \<Rightarrow> pagination_options option \<Rightarrow> task_page api_response" where
  "TaskService_getAll esort svc now filters pagination =
     (let filteredTasks = tasks svc;
          filteredTasks = (case filters of Some f \<Rightarrow> applyFilters filteredTasks f
                           | None \<Rightarrow> filteredTasks);
          filteredTasks =
            (case pagination of
               None \<Rightarrow> filteredTasks
             | Some p \<Rightarrow>
                (case sortBy p of
                   None \<Rightarrow> filteredTasks
                 | Some k \<Rightarrow>
                     applySorting esort filteredTasks k
                       (case sortOrder p of Some ord \<Rightarrow> ord | None \<Rightarrow> Asc)));
          total_count = length filteredTasks
      in case pagination of
           Some p \<Rightarrow>
             (let startIndex = (page p - 1) * limit p;
                  endIndex = startIndex + limit p
              in succeeded
                   \<lparr>page_tasks = array_slice filteredTasks startIndex endIndex,
                    page_total = total_count,
                    page_number = Some (page p),
                    page_totalPages = Some (ceil_quotient (int total_count) (limit p))\<rparr> now)
         | None \<Rightarrow>
             succeeded
               \<lparr>page_tasks = filteredTasks, page_total = total_count,
                page_number = None, page_totalPages = None\<rparr> now)"

text \<open>What a caller reads as \<open>result.data.tasks\<close>.\<close>

definition result_tasks :: "task_page api_response \<Rightarrow> task list" where
  "result_tasks r = (case data r of Some d \<Rightarrow> page_tasks d | None \<Rightarrow> [])"

section \<open>models/User.ts\<close>

datatype theme_value = Light | Dark

record user_preferences =
  theme :: theme_value
  notifications :: bool
  language :: jsstring
  timezone :: jsstring

record user =
  user_id :: jsstring
  name :: jsstring
  email :: jsstring
  role :: UserRole
  isActive :: bool
  user_createdAt :: date
  lastLogin :: "date option"
  preferences :: user_preferences
  loginAttempts :: nat
  isLocked :: bool

text \<open>\<open>User.validate\<close>; the private \<open>isValidEmail\<close> of the class tests the same regular expression.\<close>

definition User_validate :: "user \<Rightarrow> validation" where
  "User_validate u =
     (let errs =
        (if name u = [] \<or> length (trim (name u)) = 0
         then [lit ''Name is required''] else [])
      @ (if name u \<noteq> [] \<and> length (name u) > 100
         then [lit ''Name must be less than 100 characters''] else [])
      @ (if email u = [] \<or> \<not> isValidEmail (email u)
         then [lit ''Valid email is required''] else [])
      in \<lparr>isValid = (length errs = 0), errors = errs\<rparr>)"

record partial_preferences =
  pp_theme :: "theme_value option"
  pp_notifications :: "bool option"
  pp_language :: "jsstring option"
  pp_timezone :: "jsstring option"

text \<open>The object spread \<open>{...base, ...updates}\<close>.\<close>

definition spread_preferences :: "user_preferences \<Rightarrow> partial_preferences \<Rightarrow> user_preferences" where
  "spread_preferences base updates =
     \<lparr>theme = (case pp_theme updates of Some v \<Rightarrow> v | None \<Rightarrow> theme base),
      notifications = (case pp_notifications updates of Some v \<Rightarrow> v | None \<Rightarrow> notifications base),
      language = (case pp_language updates of Some v \<Rightarrow> v | None \<Rightarrow> language base),
      timezone = (case pp_timezone updates of Some v \<Rightarrow> v | None \<Rightarrow> timezone base)\<rparr>"

record create_user_input =
  cu_name :: jsstring
  cu_email :: jsstring
  cu_role :: "UserRole option"
  cu_preferences :: "partial_preferences option"

definition defaultPreferences :: user_preferences where
  "defaultPreferences =
     \<lparr>theme = Light, notifications = True, language = lit ''en'', timezone = lit ''UTC''\<rparr>"

definition new_User :: "create_user_input \<Rightarrow> jsstring \<Rightarrow> int \<Rightarrow> user" where
  "new_User input ident now =
     \<lparr>user_id = ident,
      name = cu_name input,
      email = cu_email input,
      role = (case cu_role input of Some r \<Rightarrow> r | None \<Rightarrow> USER),
      isActive = True,
      user_createdAt = Date now,
      lastLogin = None,
      preferences = (case cu_preferences input of
                       Some pp \<Rightarrow> spread_preferences defaultPreferences pp
                     | None \<Rightarrow> defaultPreferences),
      loginAttempts = 0,
      isLocked = False\<rparr>"

definition isAdmin :: "user \<Rightarrow> bool" where
  "isAdmin u \<longleftrightarrow> role u = ADMIN"

definition canManageUsers :: "user \<Rightarrow> bool" where
  "canManageUsers u \<longleftrightarrow> role u = ADMIN \<or> role u = MANAGER"

definition recordLogin :: "user \<Rightarrow> int \<Rightarrow> user" where
  "recordLogin u now = u\<lparr>lastLogin := Some (Date now), loginAttempts := 0, isLocked := False\<rparr>"

section \<open>services/UserService.ts\<close>

record user_service =
  users :: "user list"
  user_nextId :: nat

definition user_failed :: "jsstring \<Rightarrow> int \<Rightarrow> 'a api_response" where
  "user_failed msg now = \<lparr>success = False, data = None, error = Some msg, timestamp = Date now\<rparr>"

definition user_not_found :: "jsstring \<Rightarrow> int \<Rightarrow> 'a api_response" where
  "user_not_found ident now = user_failed (lit ''User with ID '' @ ident @ lit '' not found'') now"

text \<open>The constructor creates the default administrator \<open>user_1\<close>.\<close>

definition UserService_init :: "int \<Rightarrow> user_service" where
  "UserService_init now =
     \<lparr>users =
        [new_User
           \<lparr>cu_name = lit ''System Administrator'', cu_email = lit ''admin@taskmanager.com'',
            cu_role = Some ADMIN,
            cu_preferences =
              Some \<lparr>pp_theme = Some Dark, pp_notifications = Some True,
                    pp_language = Some (lit ''en''), pp_timezone = Some (lit ''UTC'')\<rparr>\<rparr>
           (lit ''user_'' @ lit (show_nat 1)) now],
      user_nextId = 2\<rparr>"

definition UserService_create ::
  "user_service \<Rightarrow> int \<Rightarrow> create_user_input \<Rightarrow> user option \<Rightarrow> user_service \<times> user api_response" where
  "UserService_create svc now userData createdBy =
     (if (case createdBy of Some c \<Rightarrow> \<not> canManageUsers c | None \<Rightarrow> False)
      then (svc, user_failed (lit ''Insufficient permissions to create users'') now)
      else
        (case find (\<lambda>u. email u = cu_email userData) (users svc) of
           Some existingUser \<Rightarrow> (svc, user_failed (lit ''User with this email already exists'') now)
         | None \<Rightarrow>
            (let ident = lit ''user_'' @ lit (show_nat (user_nextId svc));
                 svc1 = svc\<lparr>user_nextId := user_nextId svc + 1\<rparr>;
                 user = new_User userData ident now;
                 validation = User_validate user
             in if \<not> isValid validation then (svc1, validation_failed validation now)
                else (svc1\<lparr>users := users svc1 @ [user]\<rparr>, succeeded user now))))"

text \<open>
  The \<open>updates\<close> of \<open>update\<close> are a \<open>Partial<IUser>\<close> of the declared types. The name is
  assigned before the email is checked against the other users, so the early return for
  a taken email leaves the new name in place; the remaining assignments precede the
  validation, whose failure does not undo them. The preferences go to
  \<open>updatePreferences\<close>, which spreads a \<open>Partial<UserPreferences>\<close> over the old ones.
\<close>

record user_updates =
  uu_id :: "jsstring option"
  uu_name :: "jsstring option"
  uu_email :: "jsstring option"
  uu_role :: "UserRole option"
  uu_isActive :: "bool option"
  uu_createdAt :: "date option"
  uu_lastLogin :: "date option"
  uu_preferences :: "partial_preferences option"

definition UserService_update ::
  "user_service \<Rightarrow> int \<Rightarrow> jsstring \<Rightarrow> user_updates \<Rightarrow> user option
     \<Rightarrow> user_service \<times> user api_response" where
  "UserService_update svc now ident updates updatedBy =
     (case findIndex (\<lambda>u. user_id u = ident) (users svc) of
        None \<Rightarrow> (svc, user_not_found ident now)
      | Some i \<Rightarrow>
          if (case updatedBy of
                Some b \<Rightarrow> \<not> (user_id b = ident \<or> canManageUsers b) | None \<Rightarrow> False)
          then (svc, user_failed (lit ''Insufficient permissions to update this user'') now)
          else if (case updatedBy of
                Some b \<Rightarrow> uu_role updates \<noteq> None \<and> \<not> isAdmin b | None \<Rightarrow> False)
          then (svc, user_failed (lit ''Only administrators can change user roles'') now)
          else
            (let user = users svc ! i;
                 user = user\<lparr>name := (case uu_name updates of Some v \<Rightarrow> v | None \<Rightarrow> name user)\<rparr>
             in if (case uu_email updates of
                      Some e \<Rightarrow> find (\<lambda>u. email u = e \<and> user_id u \<noteq> ident)
                                  ((users svc)[i := user]) \<noteq> None
                    | None \<Rightarrow> False)
                then (svc\<lparr>users := (users svc)[i := user]\<rparr>,
                      user_failed (lit ''Email is already taken by another user'') now)
                else
                  (let user =
                         user\<lparr>email := (case uu_email updates of Some e \<Rightarrow> e
                                         | None \<Rightarrow> email user),
                              role := (case uu_role updates of Some r \<Rightarrow> r | None \<Rightarrow> role user),
                              isActive := (case uu_isActive updates of Some a \<Rightarrow> a
                                           | None \<Rightarrow> isActive user),
                              preferences :=
                                (case uu_preferences updates of
                                   Some pp \<Rightarrow> spread_preferences (preferences user) pp
                                 | None \<Rightarrow> preferences user)\<rparr>;
                       svc1 = svc\<lparr>users := (users svc)[i := user]\<rparr>;
                       validation = User_validate user
                   in if \<not> isValid validation then (svc1, validation_failed validation now)
                      else (svc1, succeeded user now))))"

definition UserService_delete ::
  "user_service \<Rightarrow> int \<Rightarrow> jsstring \<Rightarrow> user option \<Rightarrow> user_service \<times> bool api_response" where
  "UserService_delete svc now ident deletedBy =
     (case findIndex (\<lambda>u. user_id u = ident) (users svc) of
        None \<Rightarrow> (svc, user_not_found ident now)
      | Some userIndex \<Rightarrow>
          (let userToDelete = users svc ! userIndex
           in if (case deletedBy of Some b \<Rightarrow> \<not> canManageUsers b | None \<Rightarrow> False)
              then (svc, user_failed (lit ''Insufficient permissions to delete users'') now)
              else if role userToDelete = ADMIN
                      \<and> length (filter (\<lambda>u. role u = ADMIN) (users svc)) \<le> 1
              then (svc, user_failed (lit ''Cannot delete the last administrator'') now)
              else (svc\<lparr>users := take userIndex (users svc) @ drop (Suc userIndex) (users svc)\<rparr>,
                    succeeded True now)))"

text \<open>\<open>authenticate\<close> does not look at the password.\<close>

definition UserService_authenticate ::
  "user_service \<Rightarrow> int \<Rightarrow> jsstring \<Rightarrow> jsstring \<Rightarrow> user_service \<times> user api_response" where
  "UserService_authenticate svc now mail password =
     (case findIndex (\<lambda>u. email u = mail) (users svc) of
        None \<Rightarrow> (svc, user_failed (lit ''Invalid credentials'') now)
      | Some i \<Rightarrow>
          (let user = users svc ! i
           in if \<not> isActive user then (svc, user_failed (lit ''Account is deactivated'') now)
              else if isLocked user
              then (svc, user_failed
                           (lit ''Account is locked due to too many failed login attempts'') now)
              else (svc\<lparr>users := (users svc)[i := recordLogin user now]\<rparr>,
                    succeeded (recordLogin user now) now)))"

definition UserService_clear :: "user_service \<Rightarrow> user_service" where
  "UserService_clear svc =
     (case find (\<lambda>u. role u = ADMIN) (users svc) of
        Some admin \<Rightarrow> \<lparr>users = [admin], user_nextId = 2\<rparr>
      | None \<Rightarrow> \<lparr>users = [], user_nextId = 1\<rparr>)"

text \<open>The invariant of the user collection: some user has the role \<open>ADMIN\<close>.\<close>

definition has_admin :: "user_service \<Rightarrow> bool" where
  "has_admin svc \<longleftrightarrow> list_ex (\<lambda>u. role u = ADMIN) (users svc)"

section \<open>Theorems\<close>

subsection \<open>The validators\<close>

lemma regex_test_Once:
  "regex_test ((cl, Once) # r) s \<longleftrightarrow> (\<exists>c cs. s = c # cs \<and> in_class cl c \<and> regex_test r cs)"
  by (cases s) auto

lemma regex_test_OneOrMore:
  "regex_test ((cl, OneOrMore) # r) s \<longleftrightarrow>
     (\<exists>a b. s = a @ b \<and> a \<noteq> [] \<and> list_all (in_class cl) a \<and> regex_test r b)"
proof (induction s)
  case Nil
  then show ?case by simp
next
  case (Cons c cs)
  show ?case
  proof
    assume "regex_test ((cl, OneOrMore) # r) (c # cs)"
    then have c: "in_class cl c"
      and d: "regex_test ((cl, OneOrMore) # r) cs \<or> regex_test r cs" by auto
    from d show "\<exists>a b. c # cs = a @ b \<and> a \<noteq> [] \<and> list_all (in_class cl) a \<and> regex_test r b"
    proof
      assume "regex_test ((cl, OneOrMore) # r) cs"
      with Cons.IH obtain a b where "cs = a @ b" "list_all (in_class cl) a" "regex_test r b"
        by blast
      with c have "c # cs = (c # a) @ b \<and> c # a \<noteq> [] \<and> list_all (in_class cl) (c # a) \<and> regex_test r b"
        by simp
      then show ?thesis by blast
    next
      assume "regex_test r cs"
      with c have "c # cs = [c] @ cs \<and> [c] \<noteq> [] \<and> list_all (in_class cl) [c] \<and> regex_test r cs"
        by simp
      then show ?thesis by blast
    qed
  next
    assume "\<exists>a b. c # cs = a @ b \<and> a \<noteq> [] \<and> list_all (in_class cl) a \<and> regex_test r b"
    then obtain a b where ab: "c # cs = a @ b" "a \<noteq> []" "list_all (in_class cl) a" "regex_test r b"
      by blast
    then obtain a' where a': "a = c # a'" "cs = a' @ b"
      by (cases a) auto
    with ab have c: "in_class cl c" and la: "list_all (in_class cl) a'" by auto
    show "regex_test ((cl, OneOrMore) # r) (c # cs)"
    proof (cases "a' = []")
      case True
      with a' ab c show ?thesis by simp
    next
      case False
      with la a' ab have "regex_test ((cl, OneOrMore) # r) cs"
        using Cons.IH by blast
      with c show ?thesis by simp
    qed
  qed
qed

lemma isValidEmail_shape:
  "isValidEmail e \<longleftrightarrow>
     (\<exists>a b c. e = a @ [0x40] @ b @ [0x2E] @ c \<and> a \<noteq> [] \<and> b \<noteq> [] \<and> c \<noteq> [] \<and>
        list_all (in_class NotSpaceOrAt) a \<and> list_all (in_class NotSpaceOrAt) b \<and>
        list_all (in_class NotSpaceOrAt) c)"
proof -
  have last: "regex_test [(NotSpaceOrAt, OneOrMore)] s \<longleftrightarrow> s \<noteq> [] \<and> list_all (in_class NotSpaceOrAt) s" for s
    by (auto simp: regex_test_OneOrMore)
  show ?thesis
    unfolding isValidEmail_def emailRegex_def
    by (simp add: regex_test_OneOrMore regex_test_Once last) blast
qed

lemma trim_eq_Nil: "trim s = [] \<longleftrightarrow> list_all isWhiteSpace s"
proof
  assume "trim s = []"
  then have all: "\<forall>x\<in>set (dropWhile isWhiteSpace s). isWhiteSpace x"
    by (simp add: trim_def dropWhile_eq_Nil_conv)
  have "dropWhile isWhiteSpace s = []"
  proof (rule ccontr)
    assume ne: "dropWhile isWhiteSpace s \<noteq> []"
    then have "\<not> isWhiteSpace (hd (dropWhile isWhiteSpace s))"
      by (rule hd_dropWhile)
    moreover from ne have "hd (dropWhile isWhiteSpace s) \<in> set (dropWhile isWhiteSpace s)"
      by simp
    ultimately show False using all by blast
  qed
  then show "list_all isWhiteSpace s"
    by (simp add: dropWhile_eq_Nil_conv list_all_iff)
next
  assume "list_all isWhiteSpace s"
  then have d: "dropWhile isWhiteSpace s = []"
    by (simp add: dropWhile_eq_Nil_conv list_all_iff)
  show "trim s = []"
    unfolding trim_def d by simp
qed

lemma isValidEmail_trim: "isValidEmail e \<Longrightarrow> trim e \<noteq> []"
  unfolding isValidEmail_def emailRegex_def trim_eq_Nil
  by (cases e) auto

lemma Task_validate_valid_iff:
  "isValid (Task_validate t) \<longleftrightarrow>
     trim (title t) \<noteq> [] \<and> length (title t) \<le> 200 \<and>
     (case description t of None \<Rightarrow> True | Some d \<Rightarrow> length d \<le> 1000) \<and>
     (case dueDate t of None \<Rightarrow> True | Some d \<Rightarrow> \<not> date_lt d (createdAt t))"
  by (auto simp: Task_validate_def Let_def trim_eq_Nil split: option.splits)

lemma title_errors_Nil:
  "title_errors t = [] \<longleftrightarrow>
     (case t of Undefined \<Rightarrow> True | Null \<Rightarrow> False | Present v \<Rightarrow> trim v \<noteq> [] \<and> length v \<le> 200)"
  by (cases t) (auto simp: title_errors_def validateStringLength_def trim_eq_Nil)

lemma name_errors_Nil:
  "name_errors t = [] \<longleftrightarrow>
     (case t of Undefined \<Rightarrow> True | Null \<Rightarrow> False | Present v \<Rightarrow> trim v \<noteq> [] \<and> length v \<le> 100)"
  by (cases t) (auto simp: name_errors_def validateStringLength_def trim_eq_Nil)

lemma description_errors_Nil:
  "description_errors d = [] \<longleftrightarrow> (case d of Present v \<Rightarrow> length v \<le> 1000 | _ \<Rightarrow> True)"
  by (cases d) (auto simp: description_errors_def validateStringLength_def)

lemma priority_errors_Nil:
  "priority_errors p = [] \<longleftrightarrow> (case p of Some v \<Rightarrow> v \<in> range priority_value | None \<Rightarrow> True)"
proof -
  have "UNIV = {LOW, MEDIUM, HIGH, URGENT}"
    using Priority.exhaust by auto
  then have "range priority_value = set (map priority_value [LOW, MEDIUM, HIGH, URGENT])"
    by (metis list.set_map set_simps(1,2) empty_set UNIV_I)
  then show ?thesis
    by (simp add: priority_errors_def isPriority_def split: option.splits)
qed

lemma status_errors_Nil:
  "status_errors p = [] \<longleftrightarrow> (case p of Some v \<Rightarrow> v \<in> range status_value | None \<Rightarrow> True)"
proof -
  have "UNIV = {TODO, IN_PROGRESS, DONE, CANCELLED}"
    using TaskStatus.exhaust by auto
  then have "range status_value = set (map status_value [TODO, IN_PROGRESS, DONE, CANCELLED])"
    by (metis list.set_map set_simps(1,2) empty_set UNIV_I)
  then show ?thesis
    by (simp add: status_errors_def isTaskStatus_def split: option.splits)
qed

lemma role_errors_Nil:
  "role_errors p = [] \<longleftrightarrow> (case p of Some v \<Rightarrow> v \<in> range role_value | None \<Rightarrow> True)"
proof -
  have "UNIV = {ADMIN, MANAGER, USER, GUEST}"
    using UserRole.exhaust by auto
  then have "range role_value = set (map role_value [ADMIN, MANAGER, USER, GUEST])"
    by (metis list.set_map set_simps(1,2) empty_set UNIV_I)
  then show ?thesis
    by (simp add: role_errors_def isUserRole_def split: option.splits)
qed

lemma dueDate_errors_Nil:
  "dueDate_errors d = [] \<longleftrightarrow> (case d of Present v \<Rightarrow> v \<noteq> InvalidDate | _ \<Rightarrow> True)"
proof (cases d)
  case (Present v)
  then show ?thesis by (cases v) (simp_all add: dueDate_errors_def)
qed (simp_all add: dueDate_errors_def)

lemma tags_errors_Nil:
  "tags_errors t = [] \<longleftrightarrow>
     (case t of None \<Rightarrow> True | Some NotAnArray \<Rightarrow> False
      | Some (TagArray elems) \<Rightarrow> list_all isString_tag elems)"
  by (simp add: tags_errors_def split: option.splits tags_value.splits)

lemma email_errors_Nil:
  "email_errors e = [] \<longleftrightarrow>
     (case e of Undefined \<Rightarrow> True | Null \<Rightarrow> False | Present v \<Rightarrow> isValidEmail v)"
  using isValidEmail_trim by (cases e) (auto simp: email_errors_def)

lemma validateTaskData_valid_iff:
  "isValid (validateTaskData d) \<longleftrightarrow>
     (case td_title d of Undefined \<Rightarrow> True | Null \<Rightarrow> False
      | Present v \<Rightarrow> trim v \<noteq> [] \<and> length v \<le> 200) \<and>
     (case td_description d of Present v \<Rightarrow> length v \<le> 1000 | _ \<Rightarrow> True) \<and>
     (case td_priority d of Some v \<Rightarrow> v \<in> range priority_value | None \<Rightarrow> True) \<and>
     (case td_status d of Some v \<Rightarrow> v \<in> range status_value | None \<Rightarrow> True) \<and>
     (case td_dueDate d of Present v \<Rightarrow> v \<noteq> InvalidDate | _ \<Rightarrow> True) \<and>
     (case td_tags d of None \<Rightarrow> True | Some NotAnArray \<Rightarrow> False
      | Some (TagArray elems) \<Rightarrow> list_all isString_tag elems)"
  by (simp add: validateTaskData_def Let_def title_errors_Nil description_errors_Nil
      priority_errors_Nil status_errors_Nil dueDate_errors_Nil tags_errors_Nil)

lemma User_validate_valid_iff:
  "isValid (User_validate u) \<longleftrightarrow>
     trim (name u) \<noteq> [] \<and> length (name u) \<le> 100 \<and> isValidEmail (email u)"
  using isValidEmail_trim [of "email u"]
  by (auto simp: User_validate_def Let_def trim_eq_Nil)

lemma validateUserData_valid_iff:
  "isValid (validateUserData d) \<longleftrightarrow>
     (case ud_name d of Undefined \<Rightarrow> True | Null \<Rightarrow> False
      | Present v \<Rightarrow> trim v \<noteq> [] \<and> length v \<le> 100) \<and>
     (case ud_email d of Undefined \<Rightarrow> True | Null \<Rightarrow> False | Present v \<Rightarrow> isValidEmail v) \<and>
     (case ud_role d of Some v \<Rightarrow> v \<in> range role_value | None \<Rightarrow> True)"
  by (simp add: validateUserData_def Let_def name_errors_Nil email_errors_Nil role_errors_Nil)


text \<open>
  C9. The task validator applied to the record with the empty title, a description of
  1001 characters and the priority \<open>'invalid'\<close> (every other property absent) is invalid
  with exactly three errors, in the order of the rules: the title violation, then the
  description length violation, then the priority violation.
\<close>

theorem validateTaskData_three_errors:
  "validateTaskData
     \<lparr>td_id = None, td_title = Present (lit ''''),
      td_description = Present (replicate 1001 (of_char CHR ''A'')),
      td_completed = None, td_priority = Some (lit ''invalid''), td_status = None,
      td_assignedTo = None, td_createdAt = None, td_updatedAt = None,
      td_dueDate = Undefined, td_tags = None\<rparr>
   = \<lparr>isValid = False,
      errors = [lit ''Title cannot be empty'',
                lit ''Description must be no more than 1000 characters long'',
                lit ''Invalid priority value'']\<rparr>"
  by code_simp

text \<open>
  C2 (as amended). \<open>Task.validate\<close> returns valid exactly when the title is non-empty
  after trimming and has at most 200 characters, the description when present has at
  most 1000 characters, and the due date when present does not precede the creation
  date; priority and status are enum members by their type. \<open>validateTaskData\<close> returns
  valid exactly when the title, when present, is a string that is non-empty after trimming
  with at most 200 characters, the description when present has at most 1000 characters,
  priority and status when present are values of their enums, the due date when present
  is a valid date, and the tags when present are an array of strings; it accepts a
  record with no title and never compares the due date with the creation date.
\<close>

theorem task_validators_valid_iff:
  "(isValid (Task_validate t) \<longleftrightarrow>
      trim (title t) \<noteq> [] \<and> length (title t) \<le> 200 \<and>
      (case description t of None \<Rightarrow> True | Some d \<Rightarrow> length d \<le> 1000) \<and>
      (case dueDate t of None \<Rightarrow> True | Some d \<Rightarrow> \<not> date_lt d (createdAt t)))
   \<and>
   (isValid (validateTaskData taskData) \<longleftrightarrow>
      (case td_title taskData of Undefined \<Rightarrow> True | Null \<Rightarrow> False
       | Present v \<Rightarrow> trim v \<noteq> [] \<and> length v \<le> 200) \<and>
      (case td_description taskData of Present v \<Rightarrow> length v \<le> 1000 | _ \<Rightarrow> True) \<and>
      (case td_priority taskData of Some v \<Rightarrow> v \<in> range priority_value | None \<Rightarrow> True) \<and>
      (case td_status taskData of Some v \<Rightarrow> v \<in> range status_value | None \<Rightarrow> True) \<and>
      (case td_dueDate taskData of Present v \<Rightarrow> v \<noteq> InvalidDate | _ \<Rightarrow> True) \<and>
      (case td_tags taskData of None \<Rightarrow> True | Some NotAnArray \<Rightarrow> False
       | Some (TagArray elems) \<Rightarrow> list_all isString_tag elems))"
  using Task_validate_valid_iff [of t] validateTaskData_valid_iff [of taskData]
  by (rule conjI)

text \<open>
  C2 as stated fails on \<open>validateTaskData\<close>: a record with a proper title whose due date
  (time 5) precedes its creation date (time 10) is reported valid.
\<close>

theorem validateTaskData_accepts_due_before_creation:
  "isValid (validateTaskData
     \<lparr>td_id = None, td_title = Present (lit ''Report''), td_description = Undefined,
      td_completed = None, td_priority = None, td_status = None, td_assignedTo = None,
      td_createdAt = Some (Date 10), td_updatedAt = None, td_dueDate = Present (Date 5),
      td_tags = None\<rparr>)
   \<and> date_lt (Date 5) (Date 10)"
  by code_simp

text \<open>
  C5 (as amended). \<open>User.validate\<close> returns valid exactly when the name is non-empty after
  trimming and has at most 100 characters and the email has the shape \<open>a@b.c\<close> with
  \<open>a\<close>, \<open>b\<close>, \<open>c\<close> non-empty and free of white space and of \<open>@\<close>; the role is an enum
  member by its type. \<open>validateUserData\<close> returns valid exactly when the name, when
  present, is a string that is non-empty after trimming with at most 100 characters, the
  email, when present, is a string of that shape, and the role when present is a value of
  the enum; it accepts a record with no name and no email.
\<close>

theorem user_validators_valid_iff:
  "(isValid (User_validate u) \<longleftrightarrow>
      trim (name u) \<noteq> [] \<and> length (name u) \<le> 100 \<and>
      (\<exists>a b c. email u = a @ [0x40] @ b @ [0x2E] @ c \<and> a \<noteq> [] \<and> b \<noteq> [] \<and> c \<noteq> [] \<and>
         list_all (in_class NotSpaceOrAt) a \<and> list_all (in_class NotSpaceOrAt) b \<and>
         list_all (in_class NotSpaceOrAt) c))
   \<and>
   (isValid (validateUserData userData) \<longleftrightarrow>
      (case ud_name userData of Undefined \<Rightarrow> True | Null \<Rightarrow> False
       | Present v \<Rightarrow> trim v \<noteq> [] \<and> length v \<le> 100) \<and>
      (case ud_email userData of Undefined \<Rightarrow> True | Null \<Rightarrow> False
       | Present v \<Rightarrow>
           (\<exists>a b c. v = a @ [0x40] @ b @ [0x2E] @ c \<and> a \<noteq> [] \<and> b \<noteq> [] \<and> c \<noteq> [] \<and>
              list_all (in_class NotSpaceOrAt) a \<and> list_all (in_class NotSpaceOrAt) b \<and>
              list_all (in_class NotSpaceOrAt) c)) \<and>
      (case ud_role userData of Some v \<Rightarrow> v \<in> range role_value | None \<Rightarrow> True))"
  unfolding User_validate_valid_iff validateUserData_valid_iff isValidEmail_shape
  by simp

text \<open>
  C5 as stated fails on \<open>validateUserData\<close>: a record with neither name nor email is
  reported valid.
\<close>

theorem validateUserData_accepts_missing_name_and_email:
  "isValid (validateUserData
     \<lparr>ud_id = None, ud_name = Undefined, ud_email = Undefined, ud_role = Some (lit ''user''),
      ud_isActive = None, ud_createdAt = None, ud_lastLogin = None\<rparr>)"
  by code_simp

subsection \<open>Sorting\<close>

lemma string_lt_irrefl: "\<not> string_lt a a"
  by (induction a) auto

lemma string_lt_asym: "string_lt a b \<Longrightarrow> \<not> string_lt b a"
  by (induction a b rule: string_lt.induct) auto

lemma string_lt_trans: "string_lt a b \<Longrightarrow> string_lt b c \<Longrightarrow> string_lt a c"
proof (induction a b arbitrary: c rule: string_lt.induct)
  case 1
  then show ?case by simp
next
  case (2 y ys)
  then show ?case by (cases c) auto
next
  case (3 x xs)
  then show ?case by simp
next
  case (4 x xs y ys)
  then show ?case by (cases c) auto
qed

lemma string_lt_linear: "string_lt a b \<or> a = b \<or> string_lt b a"
  by (induction a b rule: string_lt.induct) auto

lemma string_lt_negtrans: "string_lt a c \<Longrightarrow> string_lt a b \<or> string_lt b c"
  using string_lt_linear [of a b] string_lt_trans [of b a c] by auto

lemma date_lt_asym: "date_lt a b \<Longrightarrow> \<not> date_lt b a"
  by (induction a b rule: date_lt.induct) auto

lemma date_lt_negtrans: "date_lt a c \<Longrightarrow> b \<noteq> InvalidDate \<Longrightarrow> date_lt a b \<or> date_lt b c"
  by (cases a; cases b; cases c) auto

lemma js_lt_asym: "js_lt a b \<Longrightarrow> \<not> js_lt b a"
  by (induction a b rule: js_lt.induct) (auto dest: string_lt_asym date_lt_asym)

lemma js_lt_irrefl: "\<not> js_lt a a"
  using js_lt_asym by blast

text \<open>The values read under one key are of one kind, so \<open><\<close> orders them linearly.\<close>

lemma js_lt_key_negtrans:
  assumes "get_property a k \<noteq> VUndefined" and "get_property b k \<noteq> VUndefined"
    and "get_property c k \<noteq> VUndefined" and "get_property b k \<noteq> VDate InvalidDate"
    and "js_lt (get_property a k) (get_property c k)"
  shows "js_lt (get_property a k) (get_property b k) \<or> js_lt (get_property b k) (get_property c k)"
proof (cases k)
  case Key_description
  with assms show ?thesis
    by (cases "description a"; cases "description b"; cases "description c")
       (auto dest: string_lt_negtrans)
next
  case Key_assignedTo
  with assms show ?thesis
    by (cases "assignedTo a"; cases "assignedTo b"; cases "assignedTo c")
       (auto dest: string_lt_negtrans)
next
  case Key_dueDate
  with assms show ?thesis
    by (cases "dueDate a"; cases "dueDate b"; cases "dueDate c")
       (auto dest: date_lt_negtrans)
qed (insert assms, auto dest: string_lt_negtrans date_lt_negtrans)

lemma compareTasks_equal_keys:
  "get_property a k = get_property b k \<Longrightarrow> compareTasks k ord a b = 0"
  by (simp add: compareTasks_def Let_def js_lt_irrefl)

lemma compareTasks_flip: "compareTasks k ord b a = - compareTasks k ord a b"
  using js_lt_asym [of "get_property a k" "get_property b k"]
  by (auto simp: compareTasks_def Let_def)

lemma compareTasks_le_iff:
  "compareTasks k ord a b \<le> 0 \<longleftrightarrow>
     (if ord = Asc
      then get_property b k = VUndefined
           \<or> (get_property a k \<noteq> VUndefined \<and> \<not> js_lt (get_property b k) (get_property a k))
      else get_property a k = VUndefined
           \<or> (get_property b k \<noteq> VUndefined \<and> \<not> js_lt (get_property a k) (get_property b k)))"
  using js_lt_asym [of "get_property a k" "get_property b k"]
  by (cases ord) (auto simp: compareTasks_def Let_def)

lemma compareTasks_le_trans:
  assumes "get_property b k \<noteq> VDate InvalidDate"
    and "compareTasks k ord a b \<le> 0" and "compareTasks k ord b c \<le> 0"
  shows "compareTasks k ord a c \<le> 0"
proof (cases ord)
  case Asc
  with assms(2,3) have ab: "get_property b k = VUndefined
      \<or> (get_property a k \<noteq> VUndefined \<and> \<not> js_lt (get_property b k) (get_property a k))"
    and bc: "get_property c k = VUndefined
      \<or> (get_property b k \<noteq> VUndefined \<and> \<not> js_lt (get_property c k) (get_property b k))"
    by (simp_all add: compareTasks_le_iff)
  have "get_property c k = VUndefined
      \<or> (get_property a k \<noteq> VUndefined \<and> \<not> js_lt (get_property c k) (get_property a k))"
    using ab bc js_lt_key_negtrans [of c k b a, OF _ _ _ assms(1)] by blast
  with Asc show ?thesis by (simp add: compareTasks_le_iff)
next
  case Desc
  with assms(2,3) have ab: "get_property a k = VUndefined
      \<or> (get_property b k \<noteq> VUndefined \<and> \<not> js_lt (get_property a k) (get_property b k))"
    and bc: "get_property b k = VUndefined
      \<or> (get_property c k \<noteq> VUndefined \<and> \<not> js_lt (get_property b k) (get_property c k))"
    by (simp_all add: compareTasks_le_iff)
  have "get_property a k = VUndefined
      \<or> (get_property c k \<noteq> VUndefined \<and> \<not> js_lt (get_property a k) (get_property c k))"
    using ab bc js_lt_key_negtrans [of a k b c, OF _ _ _ assms(1)] by blast
  with Desc show ?thesis by (simp add: compareTasks_le_iff)
qed

subsection \<open>Consistent comparators\<close>

lemma consistent_onI:
  assumes refl: "\<And>a. a \<in> S \<Longrightarrow> cmp a a = 0"
    and flip: "\<And>a b. a \<in> S \<Longrightarrow> b \<in> S \<Longrightarrow> cmp b a = - cmp a b"
    and trans: "\<And>a b c. a \<in> S \<Longrightarrow> b \<in> S \<Longrightarrow> c \<in> S \<Longrightarrow>
                  cmp a b \<le> 0 \<Longrightarrow> cmp b c \<le> 0 \<Longrightarrow> cmp a c \<le> 0"
  shows "consistent_on cmp S"
proof -
  have eq: "cmp a c = 0" if "a \<in> S" "b \<in> S" "c \<in> S" "cmp a b = 0" "cmp b c = 0" for a b c
  proof -
    from that have "cmp a c \<le> 0" using trans [of a b c] by simp
    moreover from that have "cmp c b = 0" "cmp b a = 0"
      using flip [of b c] flip [of a b] by simp_all
    with that have "cmp c a \<le> 0" using trans [of c b a] by simp
    with that have "0 \<le> cmp a c" using flip [of a c] by simp
    ultimately show ?thesis by simp
  qed
  have lt: "cmp a c < 0" if "a \<in> S" "b \<in> S" "c \<in> S" "cmp a b < 0" "cmp b c < 0" for a b c
  proof (rule ccontr)
    assume "\<not> cmp a c < 0"
    moreover from that have "cmp a c \<le> 0" using trans [of a b c] by simp
    ultimately have "cmp a c = 0" by simp
    with that have "cmp c a \<le> 0" using flip [of a c] by simp
    with that have "cmp c b \<le> 0" using trans [of c a b] by simp
    with that show False using flip [of b c] by simp
  qed
  have gt: "0 < cmp a c" if "a \<in> S" "b \<in> S" "c \<in> S" "0 < cmp a b" "0 < cmp b c" for a b c
  proof -
    from that have "cmp c b < 0" "cmp b a < 0"
      using flip [of b c] flip [of a b] by simp_all
    with that have "cmp c a < 0" using lt [of c b a] by simp
    with that show ?thesis using flip [of a c] by simp
  qed
  have sym: "cmp b a = 0" if "a \<in> S" "b \<in> S" "cmp a b = 0" for a b
    using that flip [of a b] by simp
  have fl: "cmp a b < 0 \<longleftrightarrow> 0 < cmp b a" if "a \<in> S" "b \<in> S" for a b
    using that flip [of a b] by simp
  show ?thesis
    unfolding consistent_on_def
  proof (intro conjI ballI impI)
    fix a assume "a \<in> S" then show "cmp a a = 0" by (rule refl)
  next
    fix a b assume "a \<in> S" "b \<in> S" "cmp a b = 0"
    then show "cmp b a = 0" by (rule sym)
  next
    fix a b c assume "a \<in> S" "b \<in> S" "c \<in> S" "cmp a b = 0 \<and> cmp b c = 0"
    then show "cmp a c = 0" using eq [of a b c] by simp
  next
    fix a b c assume "a \<in> S" "b \<in> S" "c \<in> S" "cmp a b < 0 \<and> cmp b c < 0"
    then show "cmp a c < 0" using lt [of a b c] by simp
  next
    fix a b c assume "a \<in> S" "b \<in> S" "c \<in> S" "0 < cmp a b \<and> 0 < cmp b c"
    then show "0 < cmp a c" using gt [of a b c] by simp
  next
    fix a b assume "a \<in> S" "b \<in> S"
    then show "(cmp a b < 0) = (0 < cmp b a)" by (rule fl)
  qed
qed

lemma compareTasks_consistent:
  assumes "\<forall>t\<in>S. get_property t k \<noteq> VDate InvalidDate"
  shows "consistent_on (compareTasks k ord) S"
proof (rule consistent_onI)
  fix a show "compareTasks k ord a a = 0"
    by (simp add: compareTasks_equal_keys)
next
  fix a b show "compareTasks k ord b a = - compareTasks k ord a b"
    by (rule compareTasks_flip)
next
  fix a b c
  assume "b \<in> S" "compareTasks k ord a b \<le> 0" "compareTasks k ord b c \<le> 0"
  with assms show "compareTasks k ord a c \<le> 0"
    using compareTasks_le_trans [of b k ord a c] by blast
qed

lemma consistent_onD:
  assumes "consistent_on cmp S"
  shows "\<forall>a\<in>S. cmp a a = 0"
    and "\<forall>a\<in>S. \<forall>b\<in>S. cmp a b = 0 \<longrightarrow> cmp b a = 0"
    and "\<forall>a\<in>S. \<forall>b\<in>S. \<forall>c\<in>S. cmp a b = 0 \<and> cmp b c = 0 \<longrightarrow> cmp a c = 0"
    and "\<forall>a\<in>S. \<forall>b\<in>S. \<forall>c\<in>S. cmp a b < 0 \<and> cmp b c < 0 \<longrightarrow> cmp a c < 0"
    and "\<forall>a\<in>S. \<forall>b\<in>S. \<forall>c\<in>S. 0 < cmp a b \<and> 0 < cmp b c \<longrightarrow> 0 < cmp a c"
    and "\<forall>a\<in>S. \<forall>b\<in>S. cmp a b < 0 \<longleftrightarrow> 0 < cmp b a"
  using assms unfolding consistent_on_def by blast+

lemma consistent_refl: "consistent_on cmp S \<Longrightarrow> a \<in> S \<Longrightarrow> cmp a a = 0"
  using consistent_onD(1) [of cmp S] by blast

lemma consistent_sym: "consistent_on cmp S \<Longrightarrow> a \<in> S \<Longrightarrow> b \<in> S \<Longrightarrow> cmp a b = 0 \<Longrightarrow> cmp b a = 0"
  using consistent_onD(2) [of cmp S] by blast

lemma consistent_eq_trans:
  "consistent_on cmp S \<Longrightarrow> a \<in> S \<Longrightarrow> b \<in> S \<Longrightarrow> c \<in> S \<Longrightarrow>
   cmp a b = 0 \<Longrightarrow> cmp b c = 0 \<Longrightarrow> cmp a c = 0"
  using consistent_onD(3) [of cmp S] by blast

lemma consistent_lt_trans:
  "consistent_on cmp S \<Longrightarrow> a \<in> S \<Longrightarrow> b \<in> S \<Longrightarrow> c \<in> S \<Longrightarrow>
   cmp a b < 0 \<Longrightarrow> cmp b c < 0 \<Longrightarrow> cmp a c < 0"
  using consistent_onD(4) [of cmp S] by blast

lemma consistent_flip:
  "consistent_on cmp S \<Longrightarrow> a \<in> S \<Longrightarrow> b \<in> S \<Longrightarrow> cmp a b < 0 \<longleftrightarrow> 0 < cmp b a"
  using consistent_onD(6) [of cmp S] by blast

lemma consistent_on_subset:
  assumes "consistent_on cmp S" and "T \<subseteq> S"
  shows "consistent_on cmp T"
  unfolding consistent_on_def
proof (intro conjI ballI impI)
  fix a assume "a \<in> T" with assms show "cmp a a = 0"
    by (auto intro: consistent_refl)
next
  fix a b assume "a \<in> T" "b \<in> T" "cmp a b = 0"
  with assms show "cmp b a = 0"
    by (auto intro: consistent_sym [of cmp S a b])
next
  fix a b c assume "a \<in> T" "b \<in> T" "c \<in> T" "cmp a b = 0 \<and> cmp b c = 0"
  with assms show "cmp a c = 0"
    by (auto intro: consistent_eq_trans [of cmp S a b c])
next
  fix a b c assume "a \<in> T" "b \<in> T" "c \<in> T" "cmp a b < 0 \<and> cmp b c < 0"
  with assms show "cmp a c < 0"
    by (auto intro: consistent_lt_trans [of cmp S a b c])
next
  fix a b c assume h: "a \<in> T" "b \<in> T" "c \<in> T" "0 < cmp a b \<and> 0 < cmp b c"
  with assms have "cmp b a < 0" "cmp c b < 0"
    using consistent_flip [of cmp S b a] consistent_flip [of cmp S c b] by auto
  with assms h have "cmp c a < 0"
    using consistent_lt_trans [of cmp S c b a] by auto
  with assms h show "0 < cmp a c"
    using consistent_flip [of cmp S c a] by auto
next
  fix a b assume "a \<in> T" "b \<in> T"
  with assms show "(cmp a b < 0) = (0 < cmp b a)"
    using consistent_flip [of cmp S a b] by auto
qed

lemma consistent_le_trans:
  assumes c: "consistent_on cmp S" and s: "a \<in> S" "b \<in> S" "c \<in> S"
    and ab: "cmp a b \<le> 0" and bc: "cmp b c \<le> 0"
  shows "cmp a c \<le> 0"
proof (rule ccontr)
  assume "\<not> cmp a c \<le> 0"
  then have ac: "0 < cmp a c" by simp
  then have ca: "cmp c a < 0"
    using consistent_flip [OF c s(3) s(1)] by simp
  show False
  proof (cases "cmp a b < 0")
    case True
    with ca have cb: "cmp c b < 0"
      using consistent_lt_trans [OF c s(3) s(1) s(2)] by simp
    show ?thesis
    proof (cases "cmp b c < 0")
      case True
      with cb show ?thesis
        using consistent_flip [OF c s(2) s(3)] by simp
    next
      case False
      with bc have "cmp b c = 0" by simp
      then have "cmp c b = 0" by (rule consistent_sym [OF c s(2) s(3)])
      with cb show ?thesis by simp
    qed
  next
    case False
    with ab have ab0: "cmp a b = 0" by simp
    then have ba0: "cmp b a = 0" by (rule consistent_sym [OF c s(1) s(2)])
    show ?thesis
    proof (cases "cmp b c < 0")
      case True
      with ca have "cmp b a < 0"
        using consistent_lt_trans [OF c s(2) s(3) s(1)] by simp
      with ba0 show ?thesis by simp
    next
      case False
      with bc have "cmp b c = 0" by simp
      with ab0 have "cmp a c = 0" by (rule consistent_eq_trans [OF c s])
      with ac show ?thesis by simp
    qed
  qed
qed

lemma consistent_not_lt_iff:
  "consistent_on cmp S \<Longrightarrow> a \<in> S \<Longrightarrow> b \<in> S \<Longrightarrow> \<not> cmp b a < 0 \<longleftrightarrow> cmp a b \<le> 0"
  using consistent_flip [of cmp S b a] by auto

subsection \<open>Insertion sort meets the conditions on the sort function\<close>

lemma count_sort_insert: "count_list (sort_insert cmp x ys) z = count_list (x # ys) z"
  by (induction ys) auto

lemma count_insertion_sort: "count_list (insertion_sort cmp xs) z = count_list xs z"
  by (induction xs) (simp_all add: count_sort_insert)

lemma set_sort_insert: "set (sort_insert cmp x ys) = insert x (set ys)"
  by (induction ys) auto

lemma set_insertion_sort: "set (insertion_sort cmp xs) = set xs"
  by (induction xs) (auto simp: set_sort_insert)

lemma filter_sort_insert:
  "\<forall>y\<in>set ys. P x \<and> P y \<longrightarrow> cmp x y \<le> 0 \<Longrightarrow>
   filter P (sort_insert cmp x ys) = filter P (x # ys)"
  by (induction ys) auto

lemma filter_insertion_sort:
  assumes "\<And>x y. x \<in> set xs \<Longrightarrow> y \<in> set xs \<Longrightarrow> P x \<Longrightarrow> P y \<Longrightarrow> cmp x y \<le> 0"
  shows "filter P (insertion_sort cmp xs) = filter P xs"
  using assms
proof (induction xs)
  case Nil
  then show ?case by simp
next
  case (Cons x xs)
  have "filter P (sort_insert cmp x (insertion_sort cmp xs))
      = filter P (x # insertion_sort cmp xs)"
    by (rule filter_sort_insert) (simp add: Cons.prems set_insertion_sort)
  moreover have "filter P (insertion_sort cmp xs) = filter P xs"
    by (rule Cons.IH) (simp add: Cons.prems)
  ultimately show ?case by simp
qed

lemma sorted_sort_insert:
  assumes c: "consistent_on cmp S" and x: "x \<in> S"
  shows "set ys \<subseteq> S \<Longrightarrow> sorted_wrt (\<lambda>a b. \<not> cmp b a < 0) ys \<Longrightarrow>
         sorted_wrt (\<lambda>a b. \<not> cmp b a < 0) (sort_insert cmp x ys)"
proof (induction ys)
  case Nil
  then show ?case by simp
next
  case (Cons y ys)
  from Cons.prems have y: "y \<in> S" and ys: "set ys \<subseteq> S" by simp_all
  show ?case
  proof (cases "cmp x y \<le> 0")
    case True
    have "\<not> cmp w x < 0" if "w \<in> set (y # ys)" for w
    proof -
      from that Cons.prems have w: "w \<in> S" by auto
      from that Cons.prems have "\<not> cmp w y < 0 \<or> w = y" by auto
      then have "cmp y w \<le> 0"
        using consistent_not_lt_iff [OF c y w] consistent_refl [OF c y] by auto
      with True have "cmp x w \<le> 0"
        by (rule consistent_le_trans [OF c x y w])
      then show ?thesis
        using consistent_not_lt_iff [OF c x w] by simp
    qed
    with True Cons.prems show ?thesis by simp
  next
    case False
    then have "\<not> cmp x y < 0" by simp
    moreover from Cons.prems have "sorted_wrt (\<lambda>a b. \<not> cmp b a < 0) (sort_insert cmp x ys)"
      by (intro Cons.IH) simp_all
    ultimately show ?thesis
      using False Cons.prems by (auto simp: set_sort_insert)
  qed
qed

lemma sorted_insertion_sort:
  assumes "consistent_on cmp S"
  shows "set xs \<subseteq> S \<Longrightarrow> sorted_wrt (\<lambda>a b. \<not> cmp b a < 0) (insertion_sort cmp xs)"
proof (induction xs)
  case Nil
  then show ?case by simp
next
  case (Cons x xs)
  then show ?case
    using sorted_sort_insert [OF assms, of x "insertion_sort cmp xs"]
    by (simp add: set_insertion_sort)
qed

lemma stable_insertion_sort:
  assumes c: "consistent_on cmp (set xs)" and a: "a \<in> set xs"
  shows "filter (\<lambda>b. cmp a b = 0) (insertion_sort cmp xs) = filter (\<lambda>b. cmp a b = 0) xs"
proof (rule filter_insertion_sort)
  fix x y
  assume x: "x \<in> set xs" and y: "y \<in> set xs" and "cmp a x = 0" and ay: "cmp a y = 0"
  then have "cmp x a = 0"
    using consistent_sym [OF c a x] by simp
  then have "cmp x y = 0"
    using ay by (rule consistent_eq_trans [OF c x a y])
  then show "cmp x y \<le> 0" by simp
qed

lemma engine_sort_insertion_sort: "engine_sort insertion_sort"
  unfolding engine_sort_def
  by (intro allI conjI impI ballI)
     (simp_all add: count_insertion_sort sorted_insertion_sort stable_insertion_sort)

subsection \<open>For a consistent comparator the conditions fix the result\<close>

lemma filter_eq_member:
  "filter P ys = filter P zs \<Longrightarrow> x \<in> set ys \<Longrightarrow> P x \<Longrightarrow> x \<in> set zs"
proof -
  assume eq: "filter P ys = filter P zs" and x: "x \<in> set ys" "P x"
  from x have "x \<in> set (filter P ys)" by simp
  then have "x \<in> set (filter P zs)" by (simp only: eq)
  then show ?thesis by simp
qed

lemma stable_sorted_unique:
  assumes c: "consistent_on cmp S"
  shows "set ys \<subseteq> S \<Longrightarrow> set zs \<subseteq> S \<Longrightarrow>
         sorted_wrt (\<lambda>a b. \<not> cmp b a < 0) ys \<Longrightarrow> sorted_wrt (\<lambda>a b. \<not> cmp b a < 0) zs \<Longrightarrow>
         (\<And>a. a \<in> S \<Longrightarrow> filter (\<lambda>b. cmp a b = 0) ys = filter (\<lambda>b. cmp a b = 0) zs) \<Longrightarrow>
         ys = zs"
proof (induction ys arbitrary: zs)
  case Nil
  show ?case
  proof (cases zs)
    case Nil
    then show ?thesis by simp
  next
    case (Cons z zs')
    with Nil.prems(2) have z: "z \<in> S" by simp
    then have zz: "cmp z z = 0" by (rule consistent_refl [OF c])
    have "filter (\<lambda>b. cmp z b = 0) zs = filter (\<lambda>b. cmp z b = 0) []"
      using Nil.prems(5) [OF z] by (rule sym)
    moreover have "z \<in> set zs" using Cons by simp
    ultimately have "z \<in> set []" using zz by (rule filter_eq_member)
    then show ?thesis by simp
  qed
next
  case (Cons y ys)
  from Cons.prems(1) have y: "y \<in> S" by simp
  then have yy: "cmp y y = 0" by (rule consistent_refl [OF c])
  have fy: "filter (\<lambda>b. cmp y b = 0) (y # ys) = filter (\<lambda>b. cmp y b = 0) zs"
    by (rule Cons.prems(5) [OF y])
  have "y \<in> set (y # ys)" by simp
  with fy have yzs: "y \<in> set zs" using yy by (rule filter_eq_member)
  then obtain z zs' where zs: "zs = z # zs'" by (cases zs) auto
  with Cons.prems(2) have z: "z \<in> S" by simp
  then have zz: "cmp z z = 0" by (rule consistent_refl [OF c])
  have fz: "filter (\<lambda>b. cmp z b = 0) zs = filter (\<lambda>b. cmp z b = 0) (y # ys)"
    using Cons.prems(5) [OF z] by (rule sym)
  have "z \<in> set zs" using zs by simp
  with fz have zys: "z \<in> set (y # ys)" using zz by (rule filter_eq_member)
  have yz0: "cmp y z = 0"
  proof (cases "y = z")
    case True
    with yy show ?thesis by simp
  next
    case False
    from yzs zs False have "y \<in> set zs'" by simp
    with Cons.prems(4) zs have 1: "\<not> cmp y z < 0" by simp
    from zys False have "z \<in> set ys" by auto
    with Cons.prems(3) have 2: "\<not> cmp z y < 0" by simp
    from 2 have "\<not> 0 < cmp y z"
      using consistent_flip [OF c z y] by simp
    with 1 show ?thesis by simp
  qed
  have l: "filter (\<lambda>b. cmp y b = 0) (y # ys) = y # filter (\<lambda>b. cmp y b = 0) ys"
    using yy by simp
  have r: "filter (\<lambda>b. cmp y b = 0) (z # zs') = z # filter (\<lambda>b. cmp y b = 0) zs'"
    using yz0 by simp
  from fy have "y # filter (\<lambda>b. cmp y b = 0) ys = z # filter (\<lambda>b. cmp y b = 0) zs'"
    by (simp only: zs l r)
  then have yz: "y = z" by (simp only: list.inject)
  have "ys = zs'"
  proof (rule Cons.IH)
    show "set ys \<subseteq> S" using Cons.prems(1) by simp
    show "set zs' \<subseteq> S" using Cons.prems(2) zs by simp
    show "sorted_wrt (\<lambda>a b. \<not> cmp b a < 0) ys" using Cons.prems(3) by simp
    show "sorted_wrt (\<lambda>a b. \<not> cmp b a < 0) zs'" using Cons.prems(4) zs by simp
    fix a assume "a \<in> S"
    then have e: "filter (\<lambda>b. cmp a b = 0) (y # ys) = filter (\<lambda>b. cmp a b = 0) (y # zs')"
      using Cons.prems(5) [of a] by (simp only: zs yz)
    show "filter (\<lambda>b. cmp a b = 0) ys = filter (\<lambda>b. cmp a b = 0) zs'"
    proof (cases "cmp a y = 0")
      case True
      then have "filter (\<lambda>b. cmp a b = 0) (y # ws) = y # filter (\<lambda>b. cmp a b = 0) ws" for ws
        by simp
      with e have "y # filter (\<lambda>b. cmp a b = 0) ys = y # filter (\<lambda>b. cmp a b = 0) zs'"
        by (simp only:)
      then show ?thesis by (simp only: list.inject)
    next
      case False
      then have "filter (\<lambda>b. cmp a b = 0) (y # ws) = filter (\<lambda>b. cmp a b = 0) ws" for ws
        by simp
      with e show ?thesis by (simp only:)
    qed
  qed
  with yz zs show ?case by simp
qed

lemma count_list_set:
  assumes "\<forall>z. count_list ys z = count_list xs z"
  shows "set ys = set xs"
proof (rule set_eqI)
  fix x
  have "x \<in> set ys \<longleftrightarrow> count_list ys x \<noteq> 0"
    by (simp only: count_list_0_iff) simp
  also have "\<dots> \<longleftrightarrow> count_list xs x \<noteq> 0"
    using assms by simp
  also have "\<dots> \<longleftrightarrow> x \<in> set xs"
    by (simp only: count_list_0_iff) simp
  finally show "x \<in> set ys \<longleftrightarrow> x \<in> set xs" .
qed

lemma count_list_length:
  "\<forall>z. count_list ys z = count_list xs z \<Longrightarrow> length ys = length xs"
proof (induction xs arbitrary: ys)
  case Nil
  then have "set ys = set []" by (rule count_list_set)
  then show ?case by simp
next
  case (Cons x xs)
  then have "set ys = set (x # xs)" by (intro count_list_set)
  then have "x \<in> set ys" by simp
  then obtain us vs where ys: "ys = us @ x # vs"
    by (meson split_list)
  have "\<forall>z. count_list (us @ vs) z = count_list xs z"
  proof
    fix z
    from Cons.prems have "count_list (us @ x # vs) z = count_list (x # xs) z"
      by (simp only: ys)
    then show "count_list (us @ vs) z = count_list xs z"
      by (cases "x = z") simp_all
  qed
  then have "length (us @ vs) = length xs" by (rule Cons.IH)
  then show ?case by (simp add: ys)
qed

lemma engine_sortD:
  assumes "engine_sort esort"
  shows "(\<forall>z. count_list (esort cmp xs) z = count_list xs z) \<and>
        (consistent_on cmp (set xs) \<longrightarrow>
           sorted_wrt (\<lambda>a b. \<not> cmp b a < 0) (esort cmp xs) \<and>
           (\<forall>a\<in>set xs. filter (\<lambda>b. cmp a b = 0) (esort cmp xs)
                          = filter (\<lambda>b. cmp a b = 0) xs))"
proof -
  from assms have "\<forall>cmp xs.
        (\<forall>z. count_list (esort cmp xs) z = count_list xs z) \<and>
        (consistent_on cmp (set xs) \<longrightarrow>
           sorted_wrt (\<lambda>a b. \<not> cmp b a < 0) (esort cmp xs) \<and>
           (\<forall>a\<in>set xs. filter (\<lambda>b. cmp a b = 0) (esort cmp xs)
                          = filter (\<lambda>b. cmp a b = 0) xs))"
    unfolding engine_sort_def .
  then have "\<forall>xs.
        (\<forall>z. count_list (esort cmp xs) z = count_list xs z) \<and>
        (consistent_on cmp (set xs) \<longrightarrow>
           sorted_wrt (\<lambda>a b. \<not> cmp b a < 0) (esort cmp xs) \<and>
           (\<forall>a\<in>set xs. filter (\<lambda>b. cmp a b = 0) (esort cmp xs)
                          = filter (\<lambda>b. cmp a b = 0) xs))"
    by (rule spec)
  then show ?thesis by (rule spec)
qed

lemma engine_sort_count: "engine_sort esort \<Longrightarrow> \<forall>z. count_list (esort cmp xs) z = count_list xs z"
  by (rule engine_sortD [THEN conjunct1])

lemma engine_sort_set: "engine_sort esort \<Longrightarrow> set (esort cmp xs) = set xs"
  by (rule count_list_set) (rule engine_sort_count)

lemma engine_sort_length: "engine_sort esort \<Longrightarrow> length (esort cmp xs) = length xs"
  by (rule count_list_length) (rule engine_sort_count)

lemma engine_sort_sorted:
  assumes "engine_sort esort" and "consistent_on cmp (set xs)"
  shows "sorted_wrt (\<lambda>a b. \<not> cmp b a < 0) (esort cmp xs)"
  using engine_sortD [OF assms(1), of cmp xs, THEN conjunct2, THEN mp, OF assms(2)]
  by (rule conjunct1)

lemma engine_sort_stable:
  assumes "engine_sort esort" and "consistent_on cmp (set xs)" and "a \<in> set xs"
  shows "filter (\<lambda>b. cmp a b = 0) (esort cmp xs) = filter (\<lambda>b. cmp a b = 0) xs"
  using engine_sortD [OF assms(1), of cmp xs, THEN conjunct2, THEN mp, OF assms(2),
      THEN conjunct2, THEN bspec, OF assms(3)] .

lemma engine_sort_unique:
  assumes e: "engine_sort esort" and c: "consistent_on cmp (set xs)"
  shows "esort cmp xs = insertion_sort cmp xs"
proof (rule stable_sorted_unique [OF c])
  show "set (esort cmp xs) \<subseteq> set xs"
    using engine_sort_set [OF e, of cmp xs] by simp
  show "set (insertion_sort cmp xs) \<subseteq> set xs"
    by (simp add: set_insertion_sort)
  show "sorted_wrt (\<lambda>a b. \<not> cmp b a < 0) (esort cmp xs)"
    using e c by (rule engine_sort_sorted)
  show "sorted_wrt (\<lambda>a b. \<not> cmp b a < 0) (insertion_sort cmp xs)"
    using c by (rule sorted_insertion_sort) simp
  fix a assume "a \<in> set xs"
  then show "filter (\<lambda>b. cmp a b = 0) (esort cmp xs)
           = filter (\<lambda>b. cmp a b = 0) (insertion_sort cmp xs)"
    using e c by (simp only: engine_sort_stable stable_insertion_sort)
qed

subsection \<open>Sorting tasks\<close>

lemma successively_sort_insert:
  assumes "\<And>a b. 0 < cmp a b \<Longrightarrow> cmp b a \<le> 0"
  shows "successively (\<lambda>a b. cmp a b \<le> 0) ys \<Longrightarrow>
         successively (\<lambda>a b. cmp a b \<le> 0) (sort_insert cmp x ys)"
proof (induction ys)
  case Nil
  then show ?case by simp
next
  case (Cons y ys)
  show ?case
  proof (cases "cmp x y \<le> 0")
    case True
    with Cons.prems show ?thesis by simp
  next
    case False
    then have yx: "cmp y x \<le> 0" using assms [of x y] by simp
    from Cons.prems have "successively (\<lambda>a b. cmp a b \<le> 0) ys"
      by (cases ys) auto
    then have ih: "successively (\<lambda>a b. cmp a b \<le> 0) (sort_insert cmp x ys)"
      by (rule Cons.IH)
    show ?thesis
    proof (cases ys)
      case Nil
      with False yx show ?thesis by simp
    next
      case (Cons z zs)
      with Cons.prems have "cmp y z \<le> 0" by simp
      with False yx ih Cons show ?thesis by auto
    qed
  qed
qed

lemma successively_insertion_sort:
  assumes "\<And>a b. 0 < cmp a b \<Longrightarrow> cmp b a \<le> 0"
  shows "successively (\<lambda>a b. cmp a b \<le> 0) (insertion_sort cmp xs)"
  by (induction xs) (auto intro: successively_sort_insert assms)

lemma insertion_sort_successively:
  "successively (\<lambda>a b. cmp a b \<le> 0) xs \<Longrightarrow> insertion_sort cmp xs = xs"
proof (induction xs)
  case Nil
  then show ?case by simp
next
  case (Cons x xs)
  then have "insertion_sort cmp xs = xs"
    by (cases xs) auto
  with Cons.prems show ?case
    by (cases xs) auto
qed

lemma insertion_sort_idem:
  "insertion_sort (compareTasks k ord) (insertion_sort (compareTasks k ord) ts)
     = insertion_sort (compareTasks k ord) ts"
proof -
  have "0 < compareTasks k ord a b \<Longrightarrow> compareTasks k ord b a \<le> 0" for a b
    by (simp add: compareTasks_flip [of k ord b a])
  then have "successively (\<lambda>a b. compareTasks k ord a b \<le> 0)
               (insertion_sort (compareTasks k ord) ts)"
    by (rule successively_insertion_sort)
  then show ?thesis
    by (rule insertion_sort_successively)
qed

lemma sort_insert_front:
  "\<forall>y\<in>set ys. cmp x y \<le> 0 \<Longrightarrow> sort_insert cmp x ys = x # ys"
  by (cases ys) auto

lemma sort_insert_append_le:
  "\<forall>u\<in>set us. cmp x u \<le> 0 \<Longrightarrow> sort_insert cmp x (ds @ us) = sort_insert cmp x ds @ us"
  by (induction ds) (auto simp: sort_insert_front)

lemma sort_insert_append_gt:
  "\<forall>d\<in>set ds. 0 < cmp x d \<Longrightarrow> sort_insert cmp x (ds @ us) = ds @ sort_insert cmp x us"
  by (induction ds) auto

lemma compareTasks_undefined_left:
  "get_property a k = VUndefined \<Longrightarrow>
   compareTasks k ord a b =
     (if get_property b k = VUndefined then 0 else if ord = Asc then 1 else - 1)"
  by (simp add: compareTasks_def Let_def)

lemma compareTasks_undefined_right:
  "get_property a k \<noteq> VUndefined \<Longrightarrow> get_property b k = VUndefined \<Longrightarrow>
   compareTasks k ord a b = (if ord = Asc then - 1 else 1)"
  by (simp add: compareTasks_def Let_def)

lemma insertion_sort_Asc_undefined_last:
  "insertion_sort (compareTasks k Asc) ts =
     insertion_sort (compareTasks k Asc) (filter (\<lambda>t. get_property t k \<noteq> VUndefined) ts)
     @ filter (\<lambda>t. get_property t k = VUndefined) ts"
proof (induction ts)
  case Nil
  then show ?case by simp
next
  case (Cons x xs)
  let ?cmp = "compareTasks k Asc"
  let ?ds = "insertion_sort ?cmp (filter (\<lambda>t. get_property t k \<noteq> VUndefined) xs)"
  let ?us = "filter (\<lambda>t. get_property t k = VUndefined) xs"
  from Cons have ih: "insertion_sort ?cmp xs = ?ds @ ?us" .
  show ?case
  proof (cases "get_property x k = VUndefined")
    case True
    then have "\<forall>d\<in>set ?ds. 0 < ?cmp x d" "\<forall>u\<in>set ?us. ?cmp x u \<le> 0"
      by (auto simp: set_insertion_sort compareTasks_undefined_left)
    then have "sort_insert ?cmp x (?ds @ ?us) = ?ds @ x # ?us"
      by (simp add: sort_insert_append_gt sort_insert_front)
    with True ih show ?thesis by simp
  next
    case False
    then have "\<forall>u\<in>set ?us. ?cmp x u \<le> 0"
      by (auto simp: compareTasks_undefined_right)
    then have "sort_insert ?cmp x (?ds @ ?us) = sort_insert ?cmp x ?ds @ ?us"
      by (rule sort_insert_append_le)
    with False ih show ?thesis by simp
  qed
qed

lemma insertion_sort_Desc_undefined_first:
  "insertion_sort (compareTasks k Desc) ts =
     filter (\<lambda>t. get_property t k = VUndefined) ts
     @ insertion_sort (compareTasks k Desc) (filter (\<lambda>t. get_property t k \<noteq> VUndefined) ts)"
proof (induction ts)
  case Nil
  then show ?case by simp
next
  case (Cons x xs)
  let ?cmp = "compareTasks k Desc"
  let ?ds = "insertion_sort ?cmp (filter (\<lambda>t. get_property t k \<noteq> VUndefined) xs)"
  let ?us = "filter (\<lambda>t. get_property t k = VUndefined) xs"
  from Cons have ih: "insertion_sort ?cmp xs = ?us @ ?ds" .
  show ?case
  proof (cases "get_property x k = VUndefined")
    case True
    then have "\<forall>y\<in>set (?us @ ?ds). ?cmp x y \<le> 0"
      by (auto simp: compareTasks_undefined_left)
    then have "sort_insert ?cmp x (?us @ ?ds) = x # ?us @ ?ds"
      by (rule sort_insert_front)
    with True ih show ?thesis by simp
  next
    case False
    then have "\<forall>u\<in>set ?us. 0 < ?cmp x u"
      by (auto simp: compareTasks_undefined_right)
    then have "sort_insert ?cmp x (?us @ ?ds) = ?us @ sort_insert ?cmp x ?ds"
      by (rule sort_insert_append_gt)
    with False ih show ?thesis by simp
  qed
qed

text \<open>
  When no key is an invalid date the comparator is consistent, and every sort function
  that meets the conditions returns what insertion sort returns.
\<close>

lemma applySorting_insertion_sort:
  assumes "engine_sort esort" and "\<forall>t\<in>set ts. get_property t k \<noteq> VDate InvalidDate"
  shows "applySorting esort ts k ord = insertion_sort (compareTasks k ord) ts"
  unfolding applySorting_def
  using assms(1) compareTasks_consistent [OF assms(2)] by (rule engine_sort_unique)

lemma applySorting_stable:
  assumes "engine_sort esort" and "\<forall>t\<in>set ts. get_property t k \<noteq> VDate InvalidDate"
  shows "filter (\<lambda>t. get_property t k = v) (applySorting esort ts k ord)
       = filter (\<lambda>t. get_property t k = v) ts"
proof -
  have "filter (\<lambda>t. get_property t k = v) (insertion_sort (compareTasks k ord) ts)
      = filter (\<lambda>t. get_property t k = v) ts"
    by (rule filter_insertion_sort) (simp add: compareTasks_equal_keys)
  then show ?thesis
    by (simp only: applySorting_insertion_sort [OF assms])
qed

lemma applySorting_idem:
  assumes "engine_sort esort" and "\<forall>t\<in>set ts. get_property t k \<noteq> VDate InvalidDate"
  shows "applySorting esort (applySorting esort ts k ord) k ord = applySorting esort ts k ord"
proof -
  let ?s = "insertion_sort (compareTasks k ord) ts"
  have s: "applySorting esort ts k ord = ?s"
    using assms by (rule applySorting_insertion_sort)
  from assms(2) have "\<forall>t\<in>set ?s. get_property t k \<noteq> VDate InvalidDate"
    by (simp add: set_insertion_sort)
  with assms(1) have "applySorting esort ?s k ord = insertion_sort (compareTasks k ord) ?s"
    by (rule applySorting_insertion_sort)
  then show ?thesis
    by (simp only: s insertion_sort_idem)
qed

lemma applySorting_Asc_undefined_last:
  assumes "engine_sort esort" and "\<forall>t\<in>set ts. get_property t k \<noteq> VDate InvalidDate"
  shows "applySorting esort ts k Asc
       = applySorting esort (filter (\<lambda>t. get_property t k \<noteq> VUndefined) ts) k Asc
         @ filter (\<lambda>t. get_property t k = VUndefined) ts"
proof -
  from assms(2) have
    "\<forall>t\<in>set (filter (\<lambda>t. get_property t k \<noteq> VUndefined) ts). get_property t k \<noteq> VDate InvalidDate"
    by simp
  with assms(1) have "applySorting esort (filter (\<lambda>t. get_property t k \<noteq> VUndefined) ts) k Asc
      = insertion_sort (compareTasks k Asc) (filter (\<lambda>t. get_property t k \<noteq> VUndefined) ts)"
    by (rule applySorting_insertion_sort)
  then show ?thesis
    using insertion_sort_Asc_undefined_last [of k ts]
    by (simp only: applySorting_insertion_sort [OF assms])
qed

lemma applySorting_Desc_undefined_first:
  assumes "engine_sort esort" and "\<forall>t\<in>set ts. get_property t k \<noteq> VDate InvalidDate"
  shows "applySorting esort ts k Desc
       = filter (\<lambda>t. get_property t k = VUndefined) ts
         @ applySorting esort (filter (\<lambda>t. get_property t k \<noteq> VUndefined) ts) k Desc"
proof -
  from assms(2) have
    "\<forall>t\<in>set (filter (\<lambda>t. get_property t k \<noteq> VUndefined) ts). get_property t k \<noteq> VDate InvalidDate"
    by simp
  with assms(1) have "applySorting esort (filter (\<lambda>t. get_property t k \<noteq> VUndefined) ts) k Desc
      = insertion_sort (compareTasks k Desc) (filter (\<lambda>t. get_property t k \<noteq> VUndefined) ts)"
    by (rule applySorting_insertion_sort)
  then show ?thesis
    using insertion_sort_Desc_undefined_first [of k ts]
    by (simp only: applySorting_insertion_sort [OF assms])
qed

text \<open>
  Two tasks, the first with the key and the second without, sorted in descending order:
  every sort function that meets the conditions puts the second first.
\<close>

lemma applySorting_Desc_pair:
  assumes "engine_sort esort"
    and "get_property a k \<noteq> VUndefined" and "get_property a k \<noteq> VDate InvalidDate"
    and "get_property b k = VUndefined"
  shows "applySorting esort [a, b] k Desc = [b, a]"
proof -
  from assms(3,4) have "\<forall>t\<in>set [a, b]. get_property t k \<noteq> VDate InvalidDate"
    by simp
  with assms(1) have "applySorting esort [a, b] k Desc = insertion_sort (compareTasks k Desc) [a, b]"
    by (rule applySorting_insertion_sort)
  also have "\<dots> = [b, a]"
    using assms(2,4) by (simp add: compareTasks_undefined_right)
  finally show ?thesis .
qed

subsection \<open>Filtering and pagination\<close>

lemma filter_predicate_iff:
  "filter_predicate filters t \<longleftrightarrow>
     (case f_status filters of None \<Rightarrow> True | Some s \<Rightarrow> status t \<in> set (as_array s)) \<and>
     (case f_priority filters of None \<Rightarrow> True | Some p \<Rightarrow> priority t \<in> set (as_array p)) \<and>
     (case f_assignedTo filters of None \<Rightarrow> True | Some a \<Rightarrow> a = [] \<or> assignedTo t = Some a) \<and>
     (case f_completed filters of None \<Rightarrow> True | Some c \<Rightarrow> completed t = c) \<and>
     (case f_dateRange filters of None \<Rightarrow> True
      | Some r \<Rightarrow> \<not> date_lt (createdAt t) (range_start r) \<and> \<not> date_lt (range_end r) (createdAt t)) \<and>
     (case f_tags filters of None \<Rightarrow> True
      | Some ts \<Rightarrow> ts = [] \<or> (\<exists>tag. tag \<in> set ts \<and> tag \<in> set (tags t)))"
  by (auto simp: filter_predicate_def list_ex_iff split: option.splits)

lemma filter_predicate_iff_bex:
  "(case f_status filters of None \<Rightarrow> True | Some s \<Rightarrow> status t \<in> set (as_array s)) \<and>
   (case f_priority filters of None \<Rightarrow> True | Some p \<Rightarrow> priority t \<in> set (as_array p)) \<and>
   (case f_assignedTo filters of None \<Rightarrow> True | Some a \<Rightarrow> a = [] \<or> assignedTo t = Some a) \<and>
   (case f_completed filters of None \<Rightarrow> True | Some c \<Rightarrow> completed t = c) \<and>
   (case f_dateRange filters of None \<Rightarrow> True
    | Some r \<Rightarrow> \<not> date_lt (createdAt t) (range_start r) \<and> \<not> date_lt (range_end r) (createdAt t)) \<and>
   (case f_tags filters of None \<Rightarrow> True
    | Some ts \<Rightarrow> ts = [] \<or> (\<exists>tag\<in>set ts. tag \<in> set (tags t)))
   \<longleftrightarrow> filter_predicate filters t"
  unfolding filter_predicate_iff by (auto split: option.splits)

lemma TaskService_getAll_filtered:
  "TaskService_getAll esort svc now (Some filters) None =
     succeeded \<lparr>page_tasks = filter (filter_predicate filters) (tasks svc),
                page_total = length (filter (filter_predicate filters) (tasks svc)),
                page_number = None, page_totalPages = None\<rparr> now"
  by (simp add: TaskService_getAll_def applyFilters_def Let_def)

lemma array_slice_nonneg:
  "0 \<le> start \<Longrightarrow> 0 \<le> n \<Longrightarrow>
   array_slice xs start (start + n) = take (nat n) (drop (nat start) xs)"
proof -
  assume s: "0 \<le> start" and n: "0 \<le> n"
  let ?len = "int (length xs)"
  show ?thesis
  proof (cases "start \<le> ?len")
    case True
    show ?thesis
    proof (cases "start + n \<le> ?len")
      case True
      with s n \<open>start \<le> ?len\<close> show ?thesis
        by (simp add: array_slice_def Let_def min_def)
    next
      case False
      with s n \<open>start \<le> ?len\<close> have "take (nat (?len - start)) (drop (nat start) xs) = drop (nat start) xs"
        "take (nat n) (drop (nat start) xs) = drop (nat start) xs"
        by auto
      with s n \<open>start \<le> ?len\<close> False show ?thesis
        by (simp add: array_slice_def Let_def min_def)
    qed
  next
    case False
    with s n show ?thesis
      by (simp add: array_slice_def Let_def min_def)
  qed
qed

lemma ceil_quotient_pos:
  "0 < d \<Longrightarrow> ceil_quotient n d = Finite \<lceil>real_of_int n / real_of_int d\<rceil>"
  by (simp add: ceil_quotient_def ceiling_divide_eq_div)

lemma concat_chunks:
  "concat (map (\<lambda>i. take l (drop (i * l) xs)) [0..<n]) = take (n * l) xs"
proof (induction n)
  case 0
  then show ?case by simp
next
  case (Suc n)
  have "take (n * l) xs @ take l (drop (n * l) xs) = take (n * l + l) xs"
    by (simp add: take_add)
  with Suc show ?case by (simp add: add.commute)
qed

lemma upto_as_upt: "[1..int n] = map (\<lambda>i. int i + 1) [0..<n]"
proof (induction n)
  case 0
  then show ?case by simp
next
  case (Suc n)
  have "[1..int (Suc n)] = [1..int n] @ [int n + 1]"
    by (simp add: upto_rec2 add.commute)
  with Suc show ?case by simp
qed

lemma ceiling_cover:
  assumes "0 < (l::int)"
  shows "int n \<le> \<lceil>real n / real_of_int l\<rceil> * l"
proof -
  let ?c = "\<lceil>real n / real_of_int l\<rceil>"
  have "real n / real_of_int l \<le> real_of_int ?c"
    by (rule le_of_int_ceiling)
  moreover from assms have "0 < real_of_int l"
    by simp
  ultimately have "real n \<le> real_of_int ?c * real_of_int l"
    by (simp only: pos_divide_le_eq)
  then have "real_of_int (int n) \<le> real_of_int (?c * l)"
    by simp
  then show ?thesis
    by (simp only: of_int_le_iff)
qed


text \<open>
  The list that \<open>getAll\<close> counts and slices: the tasks that pass the filter, handed to
  the sort function with the comparator of the source when a sort key is given.
\<close>

lemma TaskService_getAll_paged:
  assumes "engine_sort esort" and "1 \<le> page p" and "1 \<le> limit p"
    and m: "matching = (case filters of None \<Rightarrow> tasks svc
                        | Some f \<Rightarrow> filter (filter_predicate f) (tasks svc))"
    and l: "listed = (case sortBy p of None \<Rightarrow> matching
                      | Some k \<Rightarrow>
                          esort (compareTasks k (case sortOrder p of Some ord \<Rightarrow> ord | None \<Rightarrow> Asc))
                            matching)"
  shows "TaskService_getAll esort svc now filters (Some p) =
     succeeded
       \<lparr>page_tasks = take (nat (limit p)) (drop (nat ((page p - 1) * limit p)) listed),
        page_total = length matching,
        page_number = Some (page p),
        page_totalPages = Some (Finite \<lceil>real (length matching) / real_of_int (limit p)\<rceil>)\<rparr> now"
proof -
  from assms(2,3) have pos: "0 \<le> (page p - 1) * limit p" "0 \<le> limit p" "0 < limit p"
    by simp_all
  have len: "length listed = length matching"
    unfolding l using assms(1) by (simp add: engine_sort_length split: option.splits)
  have "TaskService_getAll esort svc now filters (Some p) =
     succeeded
       \<lparr>page_tasks = array_slice listed ((page p - 1) * limit p) ((page p - 1) * limit p + limit p),
        page_total = length listed,
        page_number = Some (page p),
        page_totalPages = Some (ceil_quotient (int (length listed)) (limit p))\<rparr> now"
    unfolding l m
    by (simp add: TaskService_getAll_def Let_def applyFilters_def applySorting_def
        split: option.splits)
  with pos len show ?thesis
    by (simp add: array_slice_nonneg ceil_quotient_pos)
qed

lemma listed_properties:
  assumes e: "engine_sort esort"
    and l: "listed = (case sortBy p of None \<Rightarrow> matching
                      | Some k \<Rightarrow>
                          esort (compareTasks k (case sortOrder p of Some ord \<Rightarrow> ord | None \<Rightarrow> Asc))
                            matching)"
  shows "(\<forall>z. count_list listed z = count_list matching z)
       \<and> (case sortBy p of
            None \<Rightarrow> listed = matching
          | Some k \<Rightarrow>
              (\<forall>t\<in>set matching. get_property t k \<noteq> VDate InvalidDate) \<longrightarrow>
                sorted_wrt (\<lambda>a b. \<not> compareTasks k
                              (case sortOrder p of Some ord \<Rightarrow> ord | None \<Rightarrow> Asc) b a < 0) listed
                \<and> (\<forall>v. filter (\<lambda>t. get_property t k = v) listed
                         = filter (\<lambda>t. get_property t k = v) matching))"
proof (cases "sortBy p")
  case None
  with l show ?thesis by simp
next
  case (Some k)
  let ?ord = "case sortOrder p of Some ord \<Rightarrow> ord | None \<Rightarrow> Asc"
  from l Some have li: "listed = applySorting esort matching k ?ord"
    by (simp add: applySorting_def)
  have c: "\<forall>z. count_list listed z = count_list matching z"
    unfolding li applySorting_def using e by (rule engine_sort_count)
  have s: "sorted_wrt (\<lambda>a b. \<not> compareTasks k ?ord b a < 0) listed
           \<and> (\<forall>v. filter (\<lambda>t. get_property t k = v) listed
                    = filter (\<lambda>t. get_property t k = v) matching)"
    if v: "\<forall>t\<in>set matching. get_property t k \<noteq> VDate InvalidDate"
  proof
    have "consistent_on (compareTasks k ?ord) (set matching)"
      using v by (rule compareTasks_consistent)
    with e show "sorted_wrt (\<lambda>a b. \<not> compareTasks k ?ord b a < 0) listed"
      unfolding li applySorting_def by (rule engine_sort_sorted)
    show "\<forall>v. filter (\<lambda>t. get_property t k = v) listed
              = filter (\<lambda>t. get_property t k = v) matching"
      unfolding li using applySorting_stable [OF e v] by blast
  qed
  from c s Some show ?thesis by simp
qed

lemma findIndex_Some: "findIndex P xs = Some i \<Longrightarrow> i < length xs \<and> P (xs ! i)"
  by (induction xs arbitrary: i) (auto split: if_splits option.splits)

lemma TaskService_update_invalid:
  assumes "findIndex (\<lambda>t. task_id t = ident) (tasks svc) = Some i"
    and "\<not> isValid (Task_validate (apply_updates updates now (tasks svc ! i)))"
  shows "TaskService_update svc now ident updates =
     (svc\<lparr>tasks := (tasks svc)[i := apply_updates updates now (tasks svc ! i)]\<rparr>,
      validation_failed (Task_validate (apply_updates updates now (tasks svc ! i))) now)"
  using assms by (simp add: TaskService_update_def Let_def)

subsection \<open>Claims about the task service\<close>

text \<open>
  C1. The claim is that on every reachable task \<open>completed\<close> is true exactly when the
  status is \<open>DONE\<close>, and that \<open>TaskService.update\<close> with a status change keeps the two
  in agreement. \<open>Task.markComplete\<close> and \<open>Task.markIncomplete\<close> set both, but
  \<open>TaskService.update\<close> assigns the status alone: a task created through the service
  and then updated with status \<open>DONE\<close> is stored with status \<open>DONE\<close> and
  \<open>completed = false\<close>, in a successful response.
\<close>

theorem update_status_leaves_completed_behind:
  "(let (s1, r1) = TaskService_create TaskService_init 0
                     \<lparr>ci_title = lit ''Write report'', ci_description = None,
                      ci_priority = None, ci_assignedTo = None, ci_dueDate = None,
                      ci_tags = None\<rparr>;
        (s2, r2) = TaskService_update s1 1 (lit ''task_1'')
                     \<lparr>u_id = None, u_title = None, u_description = None, u_completed = None,
                      u_priority = None, u_status = Some DONE, u_assignedTo = None,
                      u_createdAt = None, u_updatedAt = None, u_dueDate = None, u_tags = None\<rparr>
    in success r1 \<and> success r2 \<and> map task_id (tasks s2) = [lit ''task_1'']
       \<and> map status (tasks s2) = [DONE] \<and> map completed (tasks s2) = [False])"
  by code_simp

text \<open>
  C4 (as amended). For every task list in which no value of the sort field is an invalid
  date (then the comparator of the source is consistent, and the language fixes what
  the sort returns), every sort key and every direction: sorting keeps the relative order
  of the tasks whose key values are equal, and sorting the result again with the same key
  and direction changes nothing. In ascending order the tasks whose key is \<open>undefined\<close>
  come after all tasks that have the key, in their original order; in descending order
  they come before all of them, in their original order.
\<close>

theorem applySorting_stable_idempotent_placement:
  assumes "engine_sort esort" and "\<forall>t\<in>set ts. get_property t k \<noteq> VDate InvalidDate"
  shows "filter (\<lambda>t. get_property t k = v) (applySorting esort ts k ord)
           = filter (\<lambda>t. get_property t k = v) ts
   \<and> applySorting esort (applySorting esort ts k ord) k ord = applySorting esort ts k ord
   \<and> applySorting esort ts k Asc
       = applySorting esort (filter (\<lambda>t. get_property t k \<noteq> VUndefined) ts) k Asc
         @ filter (\<lambda>t. get_property t k = VUndefined) ts
   \<and> applySorting esort ts k Desc
       = filter (\<lambda>t. get_property t k = VUndefined) ts
         @ applySorting esort (filter (\<lambda>t. get_property t k \<noteq> VUndefined) ts) k Desc"
  using applySorting_stable [OF assms, of v ord] applySorting_idem [OF assms, of ord]
    applySorting_Asc_undefined_last [OF assms] applySorting_Desc_undefined_first [OF assms]
  by (intro conjI)

theorem applySorting_stable_idempotent_placement_witness:
  "(let mk = (\<lambda>n d. new_Task \<lparr>ci_title = n, ci_description = d, ci_priority = None,
                                ci_assignedTo = None, ci_dueDate = None, ci_tags = None\<rparr> n 0);
        ts = [mk (lit ''t1'') (Some (lit ''b'')), mk (lit ''t2'') None,
              mk (lit ''t3'') (Some (lit ''a'')), mk (lit ''t4'') (Some (lit ''b''))]
    in engine_sort (insertion_sort :: task sort_function)
       \<and> list_all (\<lambda>t. get_property t Key_description \<noteq> VDate InvalidDate) ts
       \<and> applySorting insertion_sort ts Key_description Asc
           = [mk (lit ''t3'') (Some (lit ''a'')), mk (lit ''t1'') (Some (lit ''b'')),
              mk (lit ''t4'') (Some (lit ''b'')), mk (lit ''t2'') None]
       \<and> applySorting insertion_sort ts Key_description Desc
           = [mk (lit ''t2'') None, mk (lit ''t1'') (Some (lit ''b'')),
              mk (lit ''t4'') (Some (lit ''b'')), mk (lit ''t3'') (Some (lit ''a''))]
       \<and> filter (\<lambda>t. get_property t Key_description = VString (lit ''b''))
            (applySorting insertion_sort ts Key_description Desc)
           = [mk (lit ''t1'') (Some (lit ''b'')), mk (lit ''t4'') (Some (lit ''b''))])"
proof -
  let ?mk = "\<lambda>n d. new_Task \<lparr>ci_title = n, ci_description = d, ci_priority = None,
                                ci_assignedTo = None, ci_dueDate = None, ci_tags = None\<rparr> n 0"
  let ?t1 = "?mk (lit ''t1'') (Some (lit ''b''))"
  let ?t2 = "?mk (lit ''t2'') None"
  let ?t3 = "?mk (lit ''t3'') (Some (lit ''a''))"
  let ?t4 = "?mk (lit ''t4'') (Some (lit ''b''))"
  let ?ts = "[?t1, ?t2, ?t3, ?t4]"
  let ?has = "\<lambda>t. get_property t Key_description \<noteq> VUndefined"
  let ?not = "\<lambda>t. get_property t Key_description = VUndefined"
  have e: "engine_sort (insertion_sort :: task sort_function)"
    by (rule engine_sort_insertion_sort)
  have v: "\<forall>t\<in>set ?ts. get_property t Key_description \<noteq> VDate InvalidDate"
    by (simp add: new_Task_def)
  have v': "list_all (\<lambda>t. get_property t Key_description \<noteq> VDate InvalidDate) ?ts"
    by (simp add: new_Task_def)
  note inst = applySorting_stable_idempotent_placement
    [OF e v, of "VString (lit ''b'')" Desc]
  have und: "filter ?not ?ts = [?t2]"
    by code_simp
  have a: "applySorting insertion_sort (filter ?has ?ts) Key_description Asc = [?t3, ?t1, ?t4]"
    by code_simp
  have d: "applySorting insertion_sort (filter ?has ?ts) Key_description Desc = [?t1, ?t4, ?t3]"
    by code_simp
  have b: "filter (\<lambda>t. get_property t Key_description = VString (lit ''b'')) ?ts = [?t1, ?t4]"
    by code_simp
  from inst have "applySorting insertion_sort ?ts Key_description Asc
      = applySorting insertion_sort (filter ?has ?ts) Key_description Asc @ filter ?not ?ts"
    by (elim conjE)
  then have asc: "applySorting insertion_sort ?ts Key_description Asc = [?t3, ?t1, ?t4, ?t2]"
    by (simp only: a und append.simps)
  from inst have "applySorting insertion_sort ?ts Key_description Desc
      = filter ?not ?ts @ applySorting insertion_sort (filter ?has ?ts) Key_description Desc"
    by (elim conjE)
  then have desc: "applySorting insertion_sort ?ts Key_description Desc = [?t2, ?t1, ?t4, ?t3]"
    by (simp only: d und append.simps)
  from inst have "filter (\<lambda>t. get_property t Key_description = VString (lit ''b''))
        (applySorting insertion_sort ?ts Key_description Desc)
      = filter (\<lambda>t. get_property t Key_description = VString (lit ''b'')) ?ts"
    by (elim conjE)
  then have st: "filter (\<lambda>t. get_property t Key_description = VString (lit ''b''))
        (applySorting insertion_sort ?ts Key_description Desc) = [?t1, ?t4]"
    by (simp only: b)
  from e v' asc desc st show ?thesis
    unfolding Let_def by (intro conjI)
qed

text \<open>
  C4 as stated fails in descending order: of two tasks, the first with a description and
  the second without, sorting by description in descending order puts the task without
  a description first. Every sort function that meets the conditions returns this
  order for the two tasks; the evaluation takes insertion sort.
\<close>

theorem applySorting_desc_puts_undefined_first:
  "applySorting insertion_sort
     [new_Task \<lparr>ci_title = lit ''a'', ci_description = Some (lit ''x''), ci_priority = None,
                ci_assignedTo = None, ci_dueDate = None, ci_tags = None\<rparr> (lit ''task_1'') 0,
      new_Task \<lparr>ci_title = lit ''b'', ci_description = None, ci_priority = None,
                ci_assignedTo = None, ci_dueDate = None, ci_tags = None\<rparr> (lit ''task_2'') 0]
     Key_description Desc
   = [new_Task \<lparr>ci_title = lit ''b'', ci_description = None, ci_priority = None,
                ci_assignedTo = None, ci_dueDate = None, ci_tags = None\<rparr> (lit ''task_2'') 0,
      new_Task \<lparr>ci_title = lit ''a'', ci_description = Some (lit ''x''), ci_priority = None,
                ci_assignedTo = None, ci_dueDate = None, ci_tags = None\<rparr> (lit ''task_1'') 0]
   \<and> get_property
         (new_Task \<lparr>ci_title = lit ''b'', ci_description = None, ci_priority = None,
                    ci_assignedTo = None, ci_dueDate = None, ci_tags = None\<rparr> (lit ''task_2'') 0)
         Key_description = VUndefined
   \<and> get_property
         (new_Task \<lparr>ci_title = lit ''a'', ci_description = Some (lit ''x''), ci_priority = None,
                    ci_assignedTo = None, ci_dueDate = None, ci_tags = None\<rparr> (lit ''task_1'') 0)
         Key_description = VString (lit ''x'')"
  by code_simp

text \<open>
  C6 (as amended). A listing with a filter and no pagination succeeds, and a task is in
  its result exactly when it is in the collection and passes every filter property that
  is given: its status is in the given status or statuses, its priority is in the given
  priority or priorities, its assignee is the given one, its completed flag is the given
  one, its creation date is neither before the start nor after the end of the range, and
  one of the requested tags is among its tags. An empty assignee string and an empty
  tag list restrict nothing.
\<close>

theorem getAll_filter_membership:
  "success (TaskService_getAll esort svc now (Some filters) None)
   \<and> (t \<in> set (result_tasks (TaskService_getAll esort svc now (Some filters) None)) \<longleftrightarrow>
     t \<in> set (tasks svc) \<and>
     (case f_status filters of None \<Rightarrow> True | Some s \<Rightarrow> status t \<in> set (as_array s)) \<and>
     (case f_priority filters of None \<Rightarrow> True | Some p \<Rightarrow> priority t \<in> set (as_array p)) \<and>
     (case f_assignedTo filters of None \<Rightarrow> True | Some a \<Rightarrow> a = [] \<or> assignedTo t = Some a) \<and>
     (case f_completed filters of None \<Rightarrow> True | Some c \<Rightarrow> completed t = c) \<and>
     (case f_dateRange filters of None \<Rightarrow> True
      | Some r \<Rightarrow> \<not> date_lt (createdAt t) (range_start r)
                  \<and> \<not> date_lt (range_end r) (createdAt t)) \<and>
     (case f_tags filters of None \<Rightarrow> True
      | Some ts \<Rightarrow> ts = [] \<or> (\<exists>tag. tag \<in> set ts \<and> tag \<in> set (tags t))))"
  unfolding TaskService_getAll_filtered result_tasks_def succeeded_def
  by (simp add: filter_predicate_iff)

text \<open>
  C6 as stated fails for the empty tag list: with \<open>tags: []\<close> requested, no tag of any
  task is in the requested set, yet the task is returned. (No sort key is given, so the
  sort function is not called.)
\<close>

theorem getAll_empty_tag_filter_keeps_task:
  "result_tasks
     (TaskService_getAll insertion_sort
        \<lparr>tasks = [new_Task \<lparr>ci_title = lit ''a'', ci_description = None, ci_priority = None,
                             ci_assignedTo = None, ci_dueDate = None,
                             ci_tags = Some [lit ''home'']\<rparr> (lit ''task_1'') 0],
         nextId = 2\<rparr> 1
        (Some \<lparr>f_status = None, f_priority = None, f_assignedTo = None, f_completed = None,
               f_dateRange = None, f_tags = Some []\<rparr>) None)
   = [new_Task \<lparr>ci_title = lit ''a'', ci_description = None, ci_priority = None,
                ci_assignedTo = None, ci_dueDate = None,
                ci_tags = Some [lit ''home'']\<rparr> (lit ''task_1'') 0]
   \<and> \<not> list_ex (\<lambda>tag. tag \<in> set [lit ''home'']) []"
  by code_simp



text \<open>
  C8. For a positive integer limit, the pages returned for page 1 up to the page count
  \<open>ceil(total / limit)\<close>, with the filter, the sort options and the limit fixed,
  concatenate to \<open>listed\<close>: the tasks that pass the filter, as the sort function returns
  them for the comparator of the key and direction when a sort key is given, and in the
  order of the collection otherwise. Every one of these responses reports that page
  count and the size of \<open>matching\<close> as total. \<open>listed\<close> is a rearrangement of
  \<open>matching\<close>, so no task is missing and none is repeated; when no key is an invalid date
  it is ordered by the comparator and stable.
\<close>

theorem getAll_pages_cover:
  assumes "engine_sort esort" and "1 \<le> limit p"
    and "matching =
      (case filters of
         None \<Rightarrow> tasks svc
       | Some f \<Rightarrow>
          filter (\<lambda>t.
            (case f_status f of None \<Rightarrow> True | Some s \<Rightarrow> status t \<in> set (as_array s)) \<and>
            (case f_priority f of None \<Rightarrow> True | Some p \<Rightarrow> priority t \<in> set (as_array p)) \<and>
            (case f_assignedTo f of None \<Rightarrow> True | Some a \<Rightarrow> a = [] \<or> assignedTo t = Some a) \<and>
            (case f_completed f of None \<Rightarrow> True | Some c \<Rightarrow> completed t = c) \<and>
            (case f_dateRange f of None \<Rightarrow> True
             | Some r \<Rightarrow> \<not> date_lt (createdAt t) (range_start r)
                         \<and> \<not> date_lt (range_end r) (createdAt t)) \<and>
            (case f_tags f of None \<Rightarrow> True
             | Some ts \<Rightarrow> ts = [] \<or> (\<exists>tag\<in>set ts. tag \<in> set (tags t))))
            (tasks svc))"
    and "listed =
      (case sortBy p of
         None \<Rightarrow> matching
       | Some k \<Rightarrow>
          esort (compareTasks k (case sortOrder p of Some ord \<Rightarrow> ord | None \<Rightarrow> Asc)) matching)"
  shows "concat (map (\<lambda>pg. result_tasks
                              (TaskService_getAll esort svc now filters (Some (p\<lparr>page := pg\<rparr>))))
            [1..\<lceil>real (length matching) / real_of_int (limit p)\<rceil>])
         = listed
   \<and> (\<forall>pg\<ge>1. \<exists>d. data (TaskService_getAll esort svc now filters (Some (p\<lparr>page := pg\<rparr>))) = Some d
                  \<and> page_total d = length matching
                  \<and> page_totalPages d
                      = Some (Finite \<lceil>real (length matching) / real_of_int (limit p)\<rceil>))
   \<and> (\<forall>z. count_list listed z = count_list matching z)
   \<and> (case sortBy p of
        None \<Rightarrow> listed = matching
      | Some k \<Rightarrow>
          (\<forall>t\<in>set matching. get_property t k \<noteq> VDate InvalidDate) \<longrightarrow>
            sorted_wrt (\<lambda>a b. \<not> compareTasks k
                          (case sortOrder p of Some ord \<Rightarrow> ord | None \<Rightarrow> Asc) b a < 0) listed
            \<and> (\<forall>v. filter (\<lambda>t. get_property t k = v) listed
                     = filter (\<lambda>t. get_property t k = v) matching))"
proof -
  let ?l = "nat (limit p)"
  let ?c = "\<lceil>real (length matching) / real_of_int (limit p)\<rceil>"
  let ?n = "nat ?c"
  from assms(2) have lpos: "0 < limit p" by simp
  have m: "matching = (case filters of None \<Rightarrow> tasks svc
                       | Some f \<Rightarrow> filter (filter_predicate f) (tasks svc))"
    using assms(3) by (simp only: filter_predicate_iff_bex)
  note props = listed_properties [OF assms(1) assms(4)]
  have len: "length listed = length matching"
    using props by (intro count_list_length) blast
  have resp: "TaskService_getAll esort svc now filters (Some (p\<lparr>page := pg\<rparr>)) =
     succeeded
       \<lparr>page_tasks = take ?l (drop (nat ((pg - 1) * limit p)) listed),
        page_total = length matching,
        page_number = Some pg,
        page_totalPages = Some (Finite ?c)\<rparr> now" if "1 \<le> pg" for pg
  proof -
    have "listed = (case sortBy (p\<lparr>page := pg\<rparr>) of None \<Rightarrow> matching
        | Some k \<Rightarrow>
            esort (compareTasks k (case sortOrder (p\<lparr>page := pg\<rparr>) of Some ord \<Rightarrow> ord
                                    | None \<Rightarrow> Asc)) matching)"
      using assms(4) by (simp split: option.splits)
    with that assms(1,2) m show ?thesis
      using TaskService_getAll_paged [where esort = esort and p = "p\<lparr>page := pg\<rparr>"
          and matching = matching and filters = filters and svc = svc and listed = listed
          and now = now]
      by simp
  qed
  have "0 \<le> real (length matching) / real_of_int (limit p)"
    using lpos by simp
  then have "- 1 < real (length matching) / real_of_int (limit p)"
    by linarith
  then have c0: "0 \<le> ?c" by simp
  then have cn: "?c = int ?n" by simp
  have page: "result_tasks (TaskService_getAll esort svc now filters (Some (p\<lparr>page := int i + 1\<rparr>)))
      = take ?l (drop (i * ?l) listed)" for i
  proof -
    have "nat (int i * limit p) = i * ?l"
      using lpos by (simp add: nat_mult_distrib)
    then show ?thesis
      using resp [of "int i + 1"] by (simp add: result_tasks_def succeeded_def)
  qed
  have "int (length matching) \<le> ?c * limit p"
    using lpos by (rule ceiling_cover)
  then have "int (length listed) \<le> int (?n * ?l)"
    using c0 lpos len by simp
  then have cover: "length listed \<le> ?n * ?l"
    by (simp only: of_nat_le_iff)
  have "concat (map (\<lambda>pg. result_tasks
                             (TaskService_getAll esort svc now filters (Some (p\<lparr>page := pg\<rparr>))))
          [1..?c])
      = concat (map (\<lambda>i. take ?l (drop (i * ?l) listed)) [0..<?n])"
    by (subst cn, subst upto_as_upt) (simp add: comp_def page)
  also have "\<dots> = take (?n * ?l) listed"
    by (rule concat_chunks)
  also have "\<dots> = listed"
    using cover by simp
  finally have cat: "concat (map (\<lambda>pg. result_tasks
                             (TaskService_getAll esort svc now filters (Some (p\<lparr>page := pg\<rparr>))))
          [1..?c]) = listed" .
  have tot: "\<forall>pg\<ge>1. \<exists>d. data (TaskService_getAll esort svc now filters (Some (p\<lparr>page := pg\<rparr>))) = Some d
                  \<and> page_total d = length matching
                  \<and> page_totalPages d = Some (Finite ?c)"
    by (simp add: resp succeeded_def)
  from cat tot props show ?thesis
    by (intro conjI) blast+
qed

theorem getAll_pages_cover_witness:
  "(let mk = (\<lambda>n pr. new_Task \<lparr>ci_title = n, ci_description = None, ci_priority = Some pr,
                                 ci_assignedTo = None, ci_dueDate = None, ci_tags = None\<rparr> n 0);
        t1 = mk (lit ''b'') HIGH; t2 = mk (lit ''d'') LOW;
        t3 = mk (lit ''a'') MEDIUM; t4 = mk (lit ''c'') HIGH;
        svc = \<lparr>tasks = [t1, t2, t3, t4], nextId = 5\<rparr>;
        f = \<lparr>f_status = None, f_priority = Some (Multiple [HIGH, MEDIUM]), f_assignedTo = None,
             f_completed = None, f_dateRange = None, f_tags = None\<rparr>;
        p = \<lparr>page = 1, limit = 2, sortBy = Some Key_title, sortOrder = Some Asc\<rparr>
    in engine_sort (insertion_sort :: task sort_function)
       \<and> 1 \<le> limit p
       \<and> concat (map (\<lambda>pg. result_tasks
                              (TaskService_getAll insertion_sort svc 0 (Some f)
                                 (Some \<lparr>page = pg, limit = 2, sortBy = Some Key_title,
                                        sortOrder = Some Asc\<rparr>)))
                  [1..2])
         = [t3, t1, t4]
       \<and> map (\<lambda>pg. result_tasks
                      (TaskService_getAll insertion_sort svc 0 (Some f)
                         (Some \<lparr>page = pg, limit = 2, sortBy = Some Key_title,
                                sortOrder = Some Asc\<rparr>)))
             [1, 2]
         = [[t3, t1], [t4]])"
proof -
  let ?mk = "\<lambda>n pr. new_Task \<lparr>ci_title = n, ci_description = None, ci_priority = Some pr,
                                 ci_assignedTo = None, ci_dueDate = None, ci_tags = None\<rparr> n 0"
  let ?t1 = "?mk (lit ''b'') HIGH"
  let ?t2 = "?mk (lit ''d'') LOW"
  let ?t3 = "?mk (lit ''a'') MEDIUM"
  let ?t4 = "?mk (lit ''c'') HIGH"
  let ?svc = "\<lparr>tasks = [?t1, ?t2, ?t3, ?t4], nextId = 5\<rparr>"
  let ?f = "\<lparr>f_status = None, f_priority = Some (Multiple [HIGH, MEDIUM]), f_assignedTo = None,
            f_completed = None, f_dateRange = None, f_tags = None\<rparr>"
  let ?p = "\<lparr>page = 1, limit = 2, sortBy = Some Key_title, sortOrder = Some Asc\<rparr>"
  have e: "engine_sort (insertion_sort :: task sort_function)"
    by (rule engine_sort_insertion_sort)
  have p: "1 \<le> limit ?p"
    by simp
  have m: "[?t1, ?t3, ?t4] =
      (case Some ?f of
         None \<Rightarrow> tasks ?svc
       | Some f \<Rightarrow>
          filter (\<lambda>t.
            (case f_status f of None \<Rightarrow> True | Some s \<Rightarrow> status t \<in> set (as_array s)) \<and>
            (case f_priority f of None \<Rightarrow> True | Some p \<Rightarrow> priority t \<in> set (as_array p)) \<and>
            (case f_assignedTo f of None \<Rightarrow> True | Some a \<Rightarrow> a = [] \<or> assignedTo t = Some a) \<and>
            (case f_completed f of None \<Rightarrow> True | Some c \<Rightarrow> completed t = c) \<and>
            (case f_dateRange f of None \<Rightarrow> True
             | Some r \<Rightarrow> \<not> date_lt (createdAt t) (range_start r)
                         \<and> \<not> date_lt (range_end r) (createdAt t)) \<and>
            (case f_tags f of None \<Rightarrow> True
             | Some ts \<Rightarrow> ts = [] \<or> (\<exists>tag\<in>set ts. tag \<in> set (tags t))))
            (tasks ?svc))"
    by code_simp
  have lp: "[?t3, ?t1, ?t4] =
      (case sortBy ?p of
         None \<Rightarrow> [?t1, ?t3, ?t4]
       | Some k \<Rightarrow>
          insertion_sort (compareTasks k (case sortOrder ?p of Some ord \<Rightarrow> ord | None \<Rightarrow> Asc))
            [?t1, ?t3, ?t4])"
    by code_simp
  note inst = getAll_pages_cover [OF e p m lp, of 0]
  from inst have "concat (map (\<lambda>pg. result_tasks
                              (TaskService_getAll insertion_sort ?svc 0 (Some ?f)
                                 (Some (?p\<lparr>page := pg\<rparr>))))
            [1..\<lceil>real (length [?t1, ?t3, ?t4]) / real_of_int (limit ?p)\<rceil>])
         = [?t3, ?t1, ?t4]"
    by (elim conjE)
  then have cat: "concat (map (\<lambda>pg. result_tasks
                              (TaskService_getAll insertion_sort ?svc 0 (Some ?f)
                                 (Some \<lparr>page = pg, limit = 2, sortBy = Some Key_title,
                                        sortOrder = Some Asc\<rparr>)))
                  [1..2])
         = [?t3, ?t1, ?t4]"
    by simp
  have pages: "map (\<lambda>pg. result_tasks
                      (TaskService_getAll insertion_sort ?svc 0 (Some ?f)
                         (Some \<lparr>page = pg, limit = 2, sortBy = Some Key_title,
                                sortOrder = Some Asc\<rparr>)))
             [1, 2]
         = [[?t3, ?t1], [?t4]]"
    by code_simp
  from e p cat pages show ?thesis
    unfolding Let_def by (intro conjI)
qed

text \<open>
  C10. \<open>TaskService.update\<close> is not atomic: when the task with the given identifier
  exists and the updated task fails validation, the response is unsuccessful and carries
  no data, yet the task stored in the collection is the updated one, with the updates
  applied and the update time set to the current time.
\<close>

theorem update_not_rolled_back:
  assumes "findIndex (\<lambda>t. task_id t = ident) (tasks svc) = Some i"
    and "\<not> isValid (Task_validate (apply_updates updates now (tasks svc ! i)))"
  shows "success (snd (TaskService_update svc now ident updates)) = False
       \<and> data (snd (TaskService_update svc now ident updates)) = None
       \<and> tasks (fst (TaskService_update svc now ident updates))
           = (tasks svc)[i := apply_updates updates now (tasks svc ! i)]
       \<and> tasks (fst (TaskService_update svc now ident updates)) ! i
           = apply_updates updates now (tasks svc ! i)
       \<and> updatedAt (tasks (fst (TaskService_update svc now ident updates)) ! i) = Date now
       \<and> (case u_title updates of None \<Rightarrow> True
          | Some v \<Rightarrow> title (tasks (fst (TaskService_update svc now ident updates)) ! i) = v)
       \<and> (case u_description updates of None \<Rightarrow> True
          | Some v \<Rightarrow> description (tasks (fst (TaskService_update svc now ident updates)) ! i)
                      = Some v)
       \<and> (case u_dueDate updates of None \<Rightarrow> True
          | Some v \<Rightarrow> dueDate (tasks (fst (TaskService_update svc now ident updates)) ! i)
                      = Some v)"
proof -
  from assms(1) have i: "i < length (tasks svc)"
    by (simp add: findIndex_Some)
  have nth: "tasks (fst (TaskService_update svc now ident updates)) ! i
      = apply_updates updates now (tasks svc ! i)"
    using i by (simp add: TaskService_update_invalid [OF assms])
  show ?thesis
    unfolding nth
    by (simp add: TaskService_update_invalid [OF assms] validation_failed_def
        apply_updates_def split: option.split)
qed

theorem update_not_rolled_back_witness:
  "(let svc = \<lparr>tasks = [new_Task \<lparr>ci_title = lit ''Write report'', ci_description = None,
                                   ci_priority = None, ci_assignedTo = None, ci_dueDate = None,
                                   ci_tags = None\<rparr> (lit ''task_1'') 0],
               nextId = 2\<rparr>;
        updates = \<lparr>u_id = None, u_title = Some (lit ''''), u_description = None,
                   u_completed = None, u_priority = None, u_status = None, u_assignedTo = None,
                   u_createdAt = None, u_updatedAt = None, u_dueDate = None, u_tags = None\<rparr>
    in findIndex (\<lambda>t. task_id t = lit ''task_1'') (tasks svc) = Some 0
       \<and> \<not> isValid (Task_validate (apply_updates updates 5 (tasks svc ! 0)))
       \<and> success (snd (TaskService_update svc 5 (lit ''task_1'') updates)) = False
       \<and> title (tasks (fst (TaskService_update svc 5 (lit ''task_1'') updates)) ! 0) = lit ''''
       \<and> updatedAt (tasks (fst (TaskService_update svc 5 (lit ''task_1'') updates)) ! 0) = Date 5)"
proof -
  let ?svc = "\<lparr>tasks = [new_Task \<lparr>ci_title = lit ''Write report'', ci_description = None,
                                   ci_priority = None, ci_assignedTo = None, ci_dueDate = None,
                                   ci_tags = None\<rparr> (lit ''task_1'') 0],
               nextId = 2\<rparr>"
  let ?updates = "\<lparr>u_id = None, u_title = Some (lit ''''), u_description = None,
                   u_completed = None, u_priority = None, u_status = None, u_assignedTo = None,
                   u_createdAt = None, u_updatedAt = None, u_dueDate = None, u_tags = None\<rparr>"
  have h1: "findIndex (\<lambda>t. task_id t = lit ''task_1'') (tasks ?svc) = Some 0"
    by (simp add: new_Task_def)
  have h2: "\<not> isValid (Task_validate (apply_updates ?updates 5 (tasks ?svc ! 0)))"
    by (simp add: Task_validate_valid_iff apply_updates_def new_Task_def lit_def trim_def)
  from update_not_rolled_back [OF h1 h2] h1 h2 show ?thesis
    by (simp add: Let_def apply_updates_def new_Task_def)
qed

subsection \<open>The user service\<close>

lemma list_ex_update:
  "i < length xs \<Longrightarrow> P y = P (xs ! i) \<Longrightarrow> list_ex P (xs[i := y]) = list_ex P xs"
  by (induction xs arbitrary: i) (auto split: nat.splits)

lemma has_admin_authenticate:
  assumes "has_admin svc"
  shows "has_admin (fst (UserService_authenticate svc now mail password))"
proof (cases "findIndex (\<lambda>u. email u = mail) (users svc)")
  case None
  with assms show ?thesis by (simp add: UserService_authenticate_def)
next
  case (Some i)
  then have i: "i < length (users svc)" by (simp add: findIndex_Some)
  have "role (recordLogin (users svc ! i) now) = role (users svc ! i)"
    by (simp add: recordLogin_def)
  then have "list_ex (\<lambda>u. role u = ADMIN) ((users svc)[i := recordLogin (users svc ! i) now])
      = list_ex (\<lambda>u. role u = ADMIN) (users svc)"
    using i by (intro list_ex_update) simp_all
  with assms Some show ?thesis
    by (simp add: UserService_authenticate_def Let_def has_admin_def)
qed

lemma filter_remove_nth:
  assumes "i < length xs"
  shows "length (filter P xs)
       = length (filter P (take i xs @ drop (Suc i) xs)) + (if P (xs ! i) then 1 else 0)"
proof -
  have "xs = take i xs @ xs ! i # drop (Suc i) xs"
    using assms by (simp add: id_take_nth_drop)
  then have "length (filter P xs)
      = length (filter P (take i xs @ xs ! i # drop (Suc i) xs))"
    by simp
  then show ?thesis by simp
qed

lemma has_admin_count: "has_admin svc \<longleftrightarrow> 1 \<le> length (filter (\<lambda>u. role u = ADMIN) (users svc))"
proof -
  have "has_admin svc \<longleftrightarrow> filter (\<lambda>u. role u = ADMIN) (users svc) \<noteq> []"
    by (simp add: has_admin_def list_ex_iff filter_empty_conv)
  also have "\<dots> \<longleftrightarrow> 1 \<le> length (filter (\<lambda>u. role u = ADMIN) (users svc))"
    by (cases "filter (\<lambda>u. role u = ADMIN) (users svc)") simp_all
  finally show ?thesis .
qed

lemma count_after_removal:
  "(n::nat) = m + (if b then 1 else 0) \<Longrightarrow> 1 \<le> n \<Longrightarrow> \<not> (b \<and> n \<le> 1) \<Longrightarrow> 1 \<le> m"
  by (cases b) simp_all

lemma has_admin_delete:
  assumes "has_admin svc"
  shows "has_admin (fst (UserService_delete svc now ident deletedBy))"
proof (cases "findIndex (\<lambda>u. user_id u = ident) (users svc)")
  case None
  with assms show ?thesis by (simp add: UserService_delete_def)
next
  case (Some i)
  let ?P = "\<lambda>u. role u = ADMIN"
  let ?rest = "take i (users svc) @ drop (Suc i) (users svc)"
  from Some have i: "i < length (users svc)" by (simp add: findIndex_Some)
  have count: "length (filter ?P (users svc))
      = length (filter ?P ?rest) + (if ?P (users svc ! i) then 1 else 0)"
    using i by (rule filter_remove_nth)
  from assms have pos: "1 \<le> length (filter ?P (users svc))"
    by (simp only: has_admin_count)
  have rest: "has_admin (svc\<lparr>users := ?rest\<rparr>)"
    if "\<not> (role (users svc ! i) = ADMIN \<and> length (filter ?P (users svc)) \<le> 1)"
  proof -
    from count pos that have "1 \<le> length (filter ?P ?rest)"
      by (rule count_after_removal)
    then show ?thesis by (simp only: has_admin_count) simp
  qed
  show ?thesis
  proof (cases "role (users svc ! i) = ADMIN \<and> length (filter ?P (users svc)) \<le> 1")
    case True
    with Some assms show ?thesis
      by (simp add: UserService_delete_def Let_def)
  next
    case False
    then have "has_admin (svc\<lparr>users := ?rest\<rparr>)" by (rule rest)
    with Some assms False show ?thesis
      by (simp add: UserService_delete_def Let_def)
  qed
qed


lemma has_admin_init: "has_admin (UserService_init now)"
  by (simp add: has_admin_def UserService_init_def new_User_def)

lemma users_create:
  "users (fst (UserService_create svc now userData createdBy)) = users svc
   \<or> (\<exists>u. users (fst (UserService_create svc now userData createdBy)) = users svc @ [u])"
  by (simp add: UserService_create_def Let_def split: option.splits)

lemma has_admin_create:
  assumes "has_admin svc"
  shows "has_admin (fst (UserService_create svc now userData createdBy))"
  using assms users_create [of svc now userData createdBy]
  unfolding has_admin_def by auto

lemma find_Some_holds: "find P xs = Some x \<Longrightarrow> P x"
  by (induction xs) (auto split: if_splits)

lemma has_admin_clear:
  assumes "has_admin svc"
  shows "has_admin (UserService_clear svc)"
proof (cases "find (\<lambda>u. role u = ADMIN) (users svc)")
  case None
  with assms show ?thesis
    by (simp add: has_admin_def list_ex_iff find_None_iff)
next
  case (Some a)
  then have "role a = ADMIN" by (rule find_Some_holds)
  with Some show ?thesis
    by (simp add: has_admin_def UserService_clear_def)
qed

lemma delete_last_admin_rejected:
  assumes "findIndex (\<lambda>u. user_id u = ident) (users svc) = Some i"
    and "role (users svc ! i) = ADMIN"
    and "length (filter (\<lambda>u. role u = ADMIN) (users svc)) \<le> 1"
    and "case deletedBy of Some b \<Rightarrow> canManageUsers b | None \<Rightarrow> True"
  shows "UserService_delete svc now ident deletedBy
       = (svc, user_failed (lit ''Cannot delete the last administrator'') now)"
  using assms by (simp add: UserService_delete_def Let_def split: option.splits)

lemma delete_one_of_many_admins:
  assumes "findIndex (\<lambda>u. user_id u = ident) (users svc) = Some i"
    and "2 \<le> length (filter (\<lambda>u. role u = ADMIN) (users svc))"
    and "case deletedBy of Some b \<Rightarrow> canManageUsers b | None \<Rightarrow> True"
  shows "UserService_delete svc now ident deletedBy
       = (svc\<lparr>users := take i (users svc) @ drop (Suc i) (users svc)\<rparr>, succeeded True now)"
  using assms by (simp add: UserService_delete_def Let_def split: option.splits)

text \<open>
  C3. The claim is that every operation of the user service keeps an \<open>ADMIN\<close> in the
  collection. \<open>create\<close>, \<open>delete\<close>, \<open>authenticate\<close> and \<open>clear\<close> do (the lemmas
  above), and \<open>delete\<close> refuses the last administrator; but \<open>update\<close> assigns the new
  role without that check: on the initial service, whose only user is the default
  administrator \<open>user_1\<close>, updating \<open>user_1\<close> with role \<open>USER\<close> succeeds and leaves no
  administrator.
\<close>

theorem update_demotes_last_admin:
  "(let svc0 = UserService_init 0;
        (svc1, r) = UserService_update svc0 1 (lit ''user_1'')
                      \<lparr>uu_id = None, uu_name = None, uu_email = None, uu_role = Some USER,
                       uu_isActive = None, uu_createdAt = None, uu_lastLogin = None,
                       uu_preferences = None\<rparr> None
    in has_admin svc0 \<and> map user_id (users svc0) = [lit ''user_1'']
       \<and> success r \<and> map role (users svc1) = [USER] \<and> \<not> has_admin svc1)"
  by code_simp

end
